theory Spec2Isabelle
  imports Complex_Main
begin

section \<open>JavaScript strings\<close>

text \<open>
  The controllers work on JavaScript strings. A string is modelled as a \<^typ>\<open>string\<close>,
  one \<^typ>\<open>char\<close> per code unit, which covers the code units 0 to 255.
\<close>

definition is_space :: "char \<Rightarrow> bool" where
  \<comment> \<open>The class \<open>\s\<close>, which is also what \<open>trim\<close> strips: tab, line feed, vertical tab,
      form feed, carriage return, space and no-break space.\<close>
  "is_space c \<longleftrightarrow>
     c \<in> set [CHR 0x09, CHR 0x0A, CHR 0x0B, CHR 0x0C, CHR 0x0D, CHR 0x20, CHR 0xA0]"

definition is_digit :: "char \<Rightarrow> bool" where
  \<comment> \<open>The class \<open>\d\<close>.\<close>
  "is_digit c \<longleftrightarrow> c \<in> set ''0123456789''"

definition upper_of :: "char \<rightharpoonup> char" where
  "upper_of = map_of (zip ''abcdefghijklmnopqrstuvwxyz'' ''ABCDEFGHIJKLMNOPQRSTUVWXYZ'')"

definition lower_of :: "char \<rightharpoonup> char" where
  "lower_of = map_of (zip ''ABCDEFGHIJKLMNOPQRSTUVWXYZ'' ''abcdefghijklmnopqrstuvwxyz'')"

definition canonicalize :: "char \<Rightarrow> char" where
  \<comment> \<open>Case folding of the flag \<open>i\<close>. Without the flag \<open>u\<close> a character beyond ASCII never
      folds to an ASCII one, and every literal of the patterns below is ASCII, so folding
      the letters a to z decides each comparison as the engine does.\<close>
  "canonicalize c = (case upper_of c of Some u \<Rightarrow> u | None \<Rightarrow> c)"

definition toLowerCase :: "string \<Rightarrow> string" where
  \<comment> \<open>A to Z, and the upper-case letters of Latin-1 (0xC0 to 0xDE without 0xD7).\<close>
  "toLowerCase s =
     map (\<lambda>c. case lower_of c of
                 Some l \<Rightarrow> l
               | None \<Rightarrow>
                   (let n = (of_char c :: nat)
                    in if 192 \<le> n \<and> n \<le> 222 \<and> n \<noteq> 215 then char_of (n + 32) else c)) s"

definition trim :: "string \<Rightarrow> string" where
  "trim s = rev (dropWhile is_space (rev (dropWhile is_space s)))"

fun split_on :: "char \<Rightarrow> string \<Rightarrow> string list" where
  \<comment> \<open>\<open>s.split(sep)\<close> for a separator of one character: the empty string gives one empty
      piece.\<close>
  "split_on sep [] = [[]]"
| "split_on sep (c # s) =
     (if c = sep then [] # split_on sep s
      else (case split_on sep s of p # ps \<Rightarrow> (c # p) # ps | [] \<Rightarrow> [[c]]))"

section \<open>Regular expressions\<close>

text \<open>
  The patterns of the controllers use literal characters, the classes \<open>\s\<close>, \<open>\d\<close> and
  \<open>[^\n]\<close>, sequence, alternation, the greedy quantifiers \<open>*\<close>, \<open>+\<close> and \<open>?\<close>, and capture
  groups. \<open>rmatch\<close> is the backtracking matcher: it lists every way the pattern matches at
  the start of the input, as the number of characters consumed and the captures, in the
  order in which the engine tries them. An iteration of \<open>*\<close> that consumes nothing is
  rejected, as the engine does.
\<close>

datatype atom = Chr char | Space | Digit | Not_Chr char

datatype regex =
    Atom atom
  | Eps
  | Seq regex regex
  | Alt regex regex
  | Star regex
  | Group nat regex

type_synonym caps = "(nat \<times> string) list"

fun atom_ok :: "bool \<Rightarrow> atom \<Rightarrow> char \<Rightarrow> bool" where
  "atom_ok ci (Chr p) c = (if ci then canonicalize p = canonicalize c else p = c)"
| "atom_ok ci Space c = is_space c"
| "atom_ok ci Digit c = is_digit c"
| "atom_ok ci (Not_Chr p) c = (if ci then canonicalize p \<noteq> canonicalize c else p \<noteq> c)"

function rmatch :: "bool \<Rightarrow> regex \<Rightarrow> string \<Rightarrow> caps \<Rightarrow> (nat \<times> caps) list" where
  "rmatch ci (Atom a) s cs =
     (case s of [] \<Rightarrow> [] | c # _ \<Rightarrow> if atom_ok ci a c then [(1, cs)] else [])"
| "rmatch ci Eps s cs = [(0, cs)]"
| "rmatch ci (Seq r1 r2) s cs =
     concat (map (\<lambda>(n, cs1). map (\<lambda>(m, cs2). (n + m, cs2)) (rmatch ci r2 (drop n s) cs1))
                 (rmatch ci r1 s cs))"
| "rmatch ci (Alt r1 r2) s cs = rmatch ci r1 s cs @ rmatch ci r2 s cs"
| "rmatch ci (Star r) s cs =
     concat (map (\<lambda>(n, cs1). if 0 < n \<and> n \<le> length s
                               then map (\<lambda>(m, cs2). (n + m, cs2))
                                        (rmatch ci (Star r) (drop n s) cs1)
                               else [])
                 (rmatch ci r s cs)) @ [(0, cs)]"
| "rmatch ci (Group k r) s cs = map (\<lambda>(n, cs1). (n, (k, take n s) # cs1)) (rmatch ci r s cs)"
  by pat_completeness auto
termination
  by (relation "measures [\<lambda>(ci, r, s, cs). size r, \<lambda>(ci, r, s, cs). length s]") auto

declare rmatch.simps(5) [simp del]

definition lit :: "string \<Rightarrow> regex" where
  \<comment> \<open>A run of literal characters.\<close>
  "lit w = foldr (\<lambda>c r. Seq (Atom (Chr c)) r) w Eps"

definition Plus :: "regex \<Rightarrow> regex" where
  \<comment> \<open>\<open>r+\<close>, for an \<open>r\<close> without a capture group.\<close>
  "Plus r = Seq r (Star r)"

definition Opt :: "regex \<Rightarrow> regex" where
  \<comment> \<open>\<open>r?\<close>: the greedy choice tries \<open>r\<close> first.\<close>
  "Opt r = Alt r Eps"

fun find_first :: "bool \<Rightarrow> regex \<Rightarrow> string \<Rightarrow> (nat \<times> nat \<times> caps) option" where
  \<comment> \<open>The search of \<open>exec\<close>: the first start position with a match, the length of the
      first match found there and its captures. The patterns have no anchor and look
      neither behind nor ahead, so matching at a position is matching the rest of the
      string.\<close>
  "find_first ci r [] =
     (case rmatch ci r [] [] of (n, cs) # _ \<Rightarrow> Some (0, n, cs) | [] \<Rightarrow> None)"
| "find_first ci r (c # t) =
     (case rmatch ci r (c # t) [] of
        (n, cs) # _ \<Rightarrow> Some (0, n, cs)
      | [] \<Rightarrow> map_option (\<lambda>(i, n, cs). (Suc i, n, cs)) (find_first ci r t))"

definition regex_test :: "bool \<Rightarrow> regex \<Rightarrow> string \<Rightarrow> bool" where
  \<comment> \<open>\<open>pattern.test(s)\<close> for a pattern without the flag \<open>g\<close>.\<close>
  "regex_test ci r s \<longleftrightarrow> find_first ci r s \<noteq> None"

definition str_match :: "bool \<Rightarrow> regex \<Rightarrow> string \<Rightarrow> (string \<times> caps) option" where
  \<comment> \<open>\<open>s.match(pattern)\<close> without the flag \<open>g\<close>: the matched text and the captures, or
      \<open>None\<close> for \<open>null\<close>.\<close>
  "str_match ci r s =
     map_option (\<lambda>(i, n, cs). (take n (drop i s), cs)) (find_first ci r s)"

definition capture :: "nat \<Rightarrow> string \<times> caps \<Rightarrow> string option" where
  \<comment> \<open>\<open>m[k]\<close> for a group \<open>k\<close>; \<open>None\<close> is \<open>undefined\<close>.\<close>
  "capture k m = map_of (snd m) k"

function match_all :: "bool \<Rightarrow> regex \<Rightarrow> string \<Rightarrow> string list" where
  \<comment> \<open>The matched texts that \<open>s.match(pattern)\<close> collects with the flag \<open>g\<close>: each search
      starts where the last match ended, one further after an empty match.\<close>
  "match_all ci r s =
     (case find_first ci r s of
        None \<Rightarrow> []
      | Some (i, n, cs) \<Rightarrow>
          take n (drop i s) #
          (if i + max n 1 \<le> length s then match_all ci r (drop (i + max n 1) s) else []))"
  by pat_completeness auto
termination
  by (relation "measure (\<lambda>(ci, r, s). length s)") auto

declare match_all.simps [simp del]

definition str_match_global :: "bool \<Rightarrow> regex \<Rightarrow> string \<Rightarrow> string list option" where
  \<comment> \<open>\<open>s.match(pattern)\<close> with the flag \<open>g\<close>: \<open>null\<close> when nothing matches.\<close>
  "str_match_global ci r s = (case match_all ci r s of [] \<Rightarrow> None | ms \<Rightarrow> Some ms)"

section \<open>Values, requests and replies\<close>

text \<open>
  The values that the controllers handle. A number is an integer that a double holds
  exactly, \<open>NaN\<close> or an infinity; the sign of zero and numbers with a fraction are not
  modelled.
\<close>

datatype jsval =
    JNull
  | JBool bool
  | JNum int
  | JNaN
  | JInfinity
  | JNeg_Infinity
  | JStr string
  | JArr "jsval list"
  | JObj "(string \<times> jsval) list"

type_synonym obj = "(string \<times> jsval) list"

datatype exn = Error (error_message: string)

subsection \<open>Numbers\<close>

text \<open>
  A JavaScript number is a double: an integer of more than 53 significant bits is rounded
  to the nearest one that has 53, to the even one of two that are equally near, and what
  rounds to \<open>2^1024\<close> or beyond is an infinity.
\<close>

function significant_bits :: "int \<Rightarrow> nat" where
  \<comment> \<open>The length of the binary numeral of a positive integer.\<close>
  "significant_bits i = (if i \<le> 0 then 0 else Suc (significant_bits (i div 2)))"
  by pat_completeness auto
termination
  by (relation "measure nat") auto

declare significant_bits.simps [simp del]

definition round_to_double :: "int \<Rightarrow> int" where
  \<comment> \<open>For an integer that is not negative.\<close>
  "round_to_double i =
     (let e = significant_bits i in
      if e \<le> 53 then i
      else (let ulp = 2 ^ (e - 53); q = i div ulp; r = i mod ulp
            in (if ulp < 2 * r \<or> (2 * r = ulp \<and> odd q) then q + 1 else q) * ulp))"

definition number_of :: "int \<Rightarrow> jsval" where
  \<comment> \<open>The number for a mathematical integer.\<close>
  "number_of i =
     (let r = round_to_double \<bar>i\<bar>
      in if 2 ^ 1024 \<le> r then (if i < 0 then JNeg_Infinity else JInfinity)
         else JNum (if i < 0 then - r else r))"

definition digit_value :: "int \<Rightarrow> char \<Rightarrow> int option" where
  \<comment> \<open>The value of a digit in the given radix: 0 to 9, then a to z in either case.\<close>
  "digit_value radix c =
     (let n = (of_char c :: int);
          v = (if 48 \<le> n \<and> n \<le> 57 then Some (n - 48)
               else if 97 \<le> n \<and> n \<le> 122 then Some (n - 87)
               else if 65 \<le> n \<and> n \<le> 90 then Some (n - 55)
               else None)
      in case v of Some d \<Rightarrow> (if d < radix then Some d else None) | None \<Rightarrow> None)"

definition radix_value :: "int \<Rightarrow> string \<Rightarrow> int" where
  "radix_value radix ds =
     foldl (\<lambda>acc c. acc * radix + (case digit_value radix c of Some d \<Rightarrow> d | None \<Rightarrow> 0)) 0 ds"

definition parseInt :: "string \<Rightarrow> jsval" where
  \<comment> \<open>\<open>parseInt(s)\<close> with no radix argument: leading white space, a sign, the prefix
      \<open>0x\<close>, then the longest run of digits, whose value becomes a number.\<close>
  "parseInt s =
     (let t = dropWhile is_space s;
          neg = (take 1 t = ''-'');
          u = (if take 1 t = ''-'' \<or> take 1 t = ''+'' then drop 1 t else t);
          hex = (take 2 u = ''0x'' \<or> take 2 u = ''0X'');
          radix = (if hex then 16 else 10);
          v = (if hex then drop 2 u else u);
          ds = takeWhile (\<lambda>c. digit_value radix c \<noteq> None) v
      in if ds = [] then JNaN
         else number_of (if neg then - radix_value radix ds else radix_value radix ds))"

subsection \<open>Strings of values and objects\<close>

fun show_nat :: "nat \<Rightarrow> string" where
  "show_nat n =
     (if n < 10 then [''0123456789'' ! n]
      else show_nat (n div 10) @ [''0123456789'' ! (n mod 10)])"

declare show_nat.simps [simp del]

definition show_int :: "int \<Rightarrow> string" where
  "show_int i = (if i < 0 then CHR ''-'' # show_nat (nat (- i)) else show_nat (nat i))"

definition interp :: "string option \<Rightarrow> string" where
  \<comment> \<open>\<open>${v}\<close> in a template literal, for a string or \<open>undefined\<close>.\<close>
  "interp v = (case v of None \<Rightarrow> ''undefined'' | Some s \<Rightarrow> s)"

definition interp_num :: "int option \<Rightarrow> string" where
  \<comment> \<open>\<open>${v}\<close> in a template literal, for a number or \<open>undefined\<close>. The number is a
      count of steps: an integer is written digit by digit as long as it is below
      \<open>10^21\<close>.\<close>
  "interp_num v = (case v of None \<Rightarrow> ''undefined'' | Some i \<Rightarrow> show_int i)"

definition interp_null :: "string option \<Rightarrow> string" where
  \<comment> \<open>The string of a value that is a string or \<open>null\<close>.\<close>
  "interp_null v = (case v of None \<Rightarrow> ''null'' | Some s \<Rightarrow> s)"

definition jsval_of :: "string option \<Rightarrow> jsval" where
  "jsval_of v = (case v of None \<Rightarrow> JNull | Some s \<Rightarrow> JStr s)"

definition truthy :: "string option \<Rightarrow> bool" where
  \<comment> \<open>\<open>!v\<close> is true for \<open>undefined\<close> and for the empty string.\<close>
  "truthy v \<longleftrightarrow> (case v of None \<Rightarrow> False | Some s \<Rightarrow> s \<noteq> [])"

definition js_ge :: "int option \<Rightarrow> int option \<Rightarrow> bool" where
  \<comment> \<open>\<open>a >= b\<close> on numbers; \<open>undefined\<close> converts to \<open>NaN\<close>, which compares false.\<close>
  "js_ge a b = (case (a, b) of (Some x, Some y) \<Rightarrow> x \<ge> y | _ \<Rightarrow> False)"

fun obj_set :: "string \<Rightarrow> jsval \<Rightarrow> obj \<Rightarrow> obj" where
  "obj_set k v [] = [(k, v)]"
| "obj_set k v ((k', v') # kvs) =
     (if k = k' then (k, v) # kvs else (k', v') # obj_set k v kvs)"

fun own_props :: "jsval \<Rightarrow> obj" where
  "own_props (JObj kvs) = kvs"
| "own_props (JArr xs) = zip (map show_nat [0..<length xs]) xs"
| "own_props (JStr s) = zip (map show_nat [0..<length s]) (map (\<lambda>c. JStr [c]) s)"
| "own_props _ = []"

definition array_index :: "string \<Rightarrow> int option" where
  \<comment> \<open>The index that a property key writes: decimal digits without a leading zero, of a
      value up to \<open>2^32 - 2\<close>.\<close>
  "array_index k =
     (if k \<noteq> [] \<and> list_all is_digit k \<and> (if take 1 k = ''0'' then length k = 1 else True) \<and>
         radix_value 10 k < 2 ^ 32 - 1
      then Some (radix_value 10 k) else None)"

definition own_property_order :: "obj \<Rightarrow> obj" where
  \<comment> \<open>The order in which the properties of an object are listed: the array indices in
      ascending order, then the other keys in the order of their creation.\<close>
  "own_property_order kvs =
     sort_key (\<lambda>(k, v). case array_index k of Some i \<Rightarrow> i | None \<Rightarrow> 0)
       (filter (\<lambda>(k, v). array_index k \<noteq> None) kvs) @
     filter (\<lambda>(k, v). array_index k = None) kvs"

definition spread :: "obj \<Rightarrow> jsval \<Rightarrow> obj" where
  \<comment> \<open>\<open>{...target, ...v}\<close>: the own properties of \<open>v\<close> are set on the target in turn.\<close>
  "spread target v =
     own_property_order (foldl (\<lambda>acc (k, x). obj_set k x acc) target (own_props v))"

text \<open>
  \<open>res.json\<close> sends the body as JSON text, which has neither \<open>NaN\<close> nor an infinity:
  each is written \<open>null\<close>. Only the analysis of a student's response can hold a number;
  the other bodies are made of strings, booleans, \<open>null\<close> and arrays of strings, which
  are written as they are.
\<close>

fun to_json :: "jsval \<Rightarrow> jsval" where
  "to_json JNaN = JNull"
| "to_json JInfinity = JNull"
| "to_json JNeg_Infinity = JNull"
| "to_json (JArr xs) = JArr (map to_json xs)"
| "to_json (JObj kvs) = JObj (map (\<lambda>(k, v). (k, to_json v)) kvs)"
| "to_json v = v"

definition json_body :: "obj \<Rightarrow> obj" where
  "json_body kvs = map (\<lambda>(k, v). (k, to_json v)) kvs"

datatype part = Text_Part string | Image_Part string

datatype content = Plain string | Parts "part list"

record chat_request =
  model :: string
  messages :: "(string \<times> content) list"
  temperature :: "rat option"
  max_tokens :: nat
  forced_function :: "string option"
  functions' :: "jsval list"

record function_call_out =
  name :: string
  arguments :: string

record chat_message =
  function_call :: "function_call_out option"
  content :: "string option"

record chat_reply =
  choices :: "chat_message list"

record audio_request =
  audio_model :: string
  voice :: string
  input :: "string option"

text \<open>
  The provider client, \<open>JSON.parse\<close>, the file system and the clock are outside the
  repository: a controller takes them as an environment. \<open>save_audio\<close> stands for creating
  the audio directory when it is absent and writing the file.
\<close>

record env =
  createChatCompletion :: "chat_request \<Rightarrow> exn + chat_reply"
  JSON_parse :: "string \<Rightarrow> exn + jsval"
  createAudio :: "audio_request \<Rightarrow> exn + string"
  save_audio :: "string \<Rightarrow> string \<Rightarrow> exn option"
  date_now :: nat
  base_url :: string

text \<open>
  The response of a controller: the status and the fields of the JSON body.
\<close>

record http_response =
  status :: nat
  body :: obj

definition first_message :: "chat_reply \<Rightarrow> exn + chat_message" where
  \<comment> \<open>\<open>response.data.choices[0].message\<close>\<close>
  "first_message reply =
     (case choices reply of
        [] \<Rightarrow> Inl (Error ''Cannot read properties of undefined (reading 'message')'')
      | m # _ \<Rightarrow> Inr m)"

section \<open>analyzeStudentResponse\<close>

text \<open>
  The body of a request holds the fields that the controller reads from it, and \<open>None\<close> is
  a field that the request leaves out. A field holds a string, and the two counts of steps
  hold integers.
\<close>

record analyze_body =
  studentResponse :: "string option"
  context' :: "string option"
  subject :: "string option"
  currentStep :: "int option"
  totalSteps :: "int option"

definition analyze_systemPrompt :: "string \<Rightarrow> string \<Rightarrow> string \<Rightarrow> string \<Rightarrow> string" where
  "analyze_systemPrompt cur tot subj ctx =
     ''\<newline>'' @
     ''      You are an AI educational assistant analyzing a student's response.\<newline>'' @
     ''      \<newline>'' @
     ''      IMPORTANT: Never provide direct answers to educational problems. Instead, provide hints and guidance.\<newline>'' @
     ''      \<newline>'' @
     ''      The student is working on step '' @ cur @ '' of '' @ tot @ '' in a '' @ subj @ '' problem.\<newline>'' @
     ''      \<newline>'' @
     ''      The context of this step is: \"'' @ ctx @ ''\"\<newline>'' @
     ''      \<newline>'' @
     ''      Analyze their response based on:\<newline>'' @
     ''      1. Correctness (is the student on the right track?)\<newline>'' @
     ''      2. Confusion level (how confused do they seem, on a scale of 0-10?)\<newline>'' @
     ''      3. Any specific misconceptions\<newline>'' @
     ''      \<newline>'' @
     ''      Return your analysis as structured feedback that:\<newline>'' @
     ''      - Encourages what they did right\<newline>'' @
     ''      - Offers a HINT (not the answer) for areas of confusion\<newline>'' @
     ''      - Asks a guiding question to help them reach the next step themselves\<newline>'' @
     ''      \<newline>'' @
     ''      Remember: Your goal is to help them learn and think for themselves, not to solve the problem for them.\<newline>'' @
     ''    ''"

definition analyze_functions :: "jsval list" where
  "analyze_functions =
     [JObj [(''name'', JStr ''analyze_student_response''),
            (''description'',
               JStr ''Analyze a student's response to determine correctness and confusion level''),
            (''parameters'', JObj [
               (''type'', JStr ''object''),
               (''properties'', JObj [
                  (''is_correct'', JObj [
                     (''type'', JStr ''boolean''),
                     (''description'',
                        JStr ''Whether the student's response is mostly correct or on the right track'')]),
                  (''confusion_level'', JObj [
                     (''type'', JStr ''integer''),
                     (''description'',
                        JStr ''The level of confusion detected in the student's response, from 0 (not confused) to 10 (very confused)'')]),
                  (''misconceptions'', JObj [
                     (''type'', JStr ''array''),
                     (''items'', JObj [(''type'', JStr ''string'')]),
                     (''description'',
                        JStr ''Any misconceptions detected in the student's response'')]),
                  (''feedback'', JObj [
                     (''type'', JStr ''string''),
                     (''description'',
                        JStr ''Educational feedback with hints (not answers) to guide the student'')])]),
               (''required'',
                  JArr [JStr ''is_correct'', JStr ''confusion_level'', JStr ''feedback''])])]]"

definition analyze_request :: "analyze_body \<Rightarrow> chat_request" where
  "analyze_request b =
     \<lparr>model = ''gpt-4'',
      messages =
        [(''system'', Plain (analyze_systemPrompt (interp_num (currentStep b))
                               (interp_num (totalSteps b)) (interp (analyze_body.subject b))
                               (interp (analyze_body.context' b)))),
         (''user'', Plain (''Student's response: \"'' @ interp (studentResponse b) @ ''\"''))],
      temperature = Some (7 / 10),
      max_tokens = 500,
      forced_function = Some ''analyze_student_response'',
      functions' = analyze_functions\<rparr>"

definition re_correct :: regex where
  \<comment> \<open>\<open>/correct:\s*(true|false)/i\<close>\<close>
  "re_correct =
     Seq (lit ''correct:'')
       (Seq (Star (Atom Space)) (Group 1 (Alt (lit ''true'') (lit ''false''))))"

definition re_confusion :: regex where
  \<comment> \<open>\<open>/confusion:\s*(\d+)/i\<close>\<close>
  "re_confusion =
     Seq (lit ''confusion:'') (Seq (Star (Atom Space)) (Group 1 (Plus (Atom Digit))))"

definition fallback_analysis :: "string \<Rightarrow> exn + jsval" where
  \<comment> \<open>The branch for a reply without a function call.\<close>
  "fallback_analysis analysisText =
     (let isCorrectMatch = str_match True re_correct analysisText;
          confusionMatch = str_match True re_confusion analysisText
      in case (case isCorrectMatch of
                 None \<Rightarrow> Inr False
               | Some m \<Rightarrow>
                   (case capture 1 m of
                      None \<Rightarrow>
                        Inl (Error ''Cannot read properties of undefined (reading 'toLowerCase')'')
                    | Some c \<Rightarrow> Inr (toLowerCase c = ''true''))) of
           Inl e \<Rightarrow> Inl e
         | Inr is_correct \<Rightarrow>
             Inr (JObj [(''is_correct'', JBool is_correct),
                        (''confusion_level'',
                           (case confusionMatch of
                              None \<Rightarrow> JNum 5
                            | Some m \<Rightarrow>
                                (case capture 1 m of
                                   None \<Rightarrow> JNaN
                                 | Some c \<Rightarrow> parseInt c))),
                        (''feedback'', JStr analysisText)]))"

definition analysisResult :: "env \<Rightarrow> chat_reply \<Rightarrow> exn + jsval" where
  "analysisResult env response =
     (case first_message response of
        Inl e \<Rightarrow> Inl e
      | Inr m \<Rightarrow>
          (case function_call m of
             Some fc \<Rightarrow> JSON_parse env (arguments fc)
           | None \<Rightarrow>
               (case content m of
                  None \<Rightarrow> Inl (Error ''Cannot read properties of null (reading 'match')'')
                | Some analysisText \<Rightarrow> fallback_analysis analysisText)))"

definition analyze_failure :: "exn \<Rightarrow> http_response" where
  "analyze_failure e =
     \<lparr>status = 500,
      body = [(''success'', JBool False),
              (''message'', JStr ''Error analyzing student response''),
              (''error'', JStr (error_message e))]\<rparr>"

definition analyzeStudentResponse ::
  "env \<Rightarrow> analyze_body \<Rightarrow> http_response \<times> chat_request list" where
  \<comment> \<open>The response, and the requests sent to the provider.\<close>
  "analyzeStudentResponse env b =
     (if \<not> truthy (studentResponse b) \<or> \<not> truthy (analyze_body.context' b) then
        (\<lparr>status = 400,
          body = [(''success'', JBool False),
                  (''message'', JStr ''Student response and context are required'')]\<rparr>, [])
      else
        (case createChatCompletion env (analyze_request b) of
           Inl e \<Rightarrow> (analyze_failure e, [analyze_request b])
         | Inr response \<Rightarrow>
             (case analysisResult env response of
                Inl e \<Rightarrow> (analyze_failure e, [analyze_request b])
              | Inr result \<Rightarrow>
                  (\<lparr>status = 200,
                    body = json_body (spread [(''success'', JBool True)] result)\<rparr>,
                   [analyze_request b]))))"

section \<open>processLearningResponse\<close>

record process_body =
  message :: "string option"
  user_query :: "string option"
  subject :: "string option"
  current_step :: "int option"
  total_steps :: "int option"
  context' :: "string option"
  response_type :: "string option"

definition hint_template :: "string \<Rightarrow> string \<Rightarrow> string \<Rightarrow> string \<Rightarrow> string" where
  "hint_template subj cur tot ctx =
     ''\<newline>'' @
     ''          You are an AI tutor helping a student with a '' @ subj @ '' problem.\<newline>'' @
     ''          \<newline>'' @
     ''          The student is on step '' @ cur @ '' of '' @ tot @ ''.\<newline>'' @
     ''          \<newline>'' @
     ''          Current context: \"'' @ ctx @ ''\"\<newline>'' @
     ''          \<newline>'' @
     ''          The student has responded and needs a HINT to move forward. Do NOT give them the answer!\<newline>'' @
     ''          \<newline>'' @
     ''          Your response should:\<newline>'' @
     ''          1. Acknowledge their answer with specific encouragement\<newline>'' @
     ''          2. Provide a gentle hint that guides them in the right direction\<newline>'' @
     ''          3. Ask a thought-provoking question that helps them discover the next step themselves\<newline>'' @
     ''          4. Use age-appropriate language and examples\<newline>'' @
     ''          \<newline>'' @
     ''          Important guidelines:\<newline>'' @
     ''          - NEVER solve the problem for them\<newline>'' @
     ''          - Focus on process and thinking skills\<newline>'' @
     ''          - Build confidence through guided discovery\<newline>'' @
     ''          - Keep your response friendly, encouraging, and concise\<newline>'' @
     ''        ''"

definition clarification_template :: "string \<Rightarrow> string \<Rightarrow> string \<Rightarrow> string \<Rightarrow> string" where
  "clarification_template subj cur tot ctx =
     ''\<newline>'' @
     ''          You are an AI tutor helping a confused student with a '' @ subj @ '' problem.\<newline>'' @
     ''          \<newline>'' @
     ''          The student is on step '' @ cur @ '' of '' @ tot @ '' and seems confused.\<newline>'' @
     ''          \<newline>'' @
     ''          Current context: \"'' @ ctx @ ''\"\<newline>'' @
     ''          \<newline>'' @
     ''          Your response should:\<newline>'' @
     ''          1. Reassure them that confusion is part of learning\<newline>'' @
     ''          2. Clarify the concept they're struggling with using simple examples\<newline>'' @
     ''          3. Break down the step into smaller, more manageable parts\<newline>'' @
     ''          4. Provide a structured approach to help them get unstuck\<newline>'' @
     ''          \<newline>'' @
     ''          Important guidelines:\<newline>'' @
     ''          - Use very clear, simple language\<newline>'' @
     ''          - Explain concepts in multiple ways\<newline>'' @
     ''          - Use metaphors or visual examples when possible\<newline>'' @
     ''          - Keep your response patient, kind, and supportive\<newline>'' @
     ''        ''"

definition encouragement_template :: "string \<Rightarrow> string \<Rightarrow> string \<Rightarrow> string \<Rightarrow> string" where
  "encouragement_template subj cur tot ctx =
     ''\<newline>'' @
     ''          You are an AI tutor celebrating a student's progress with a '' @ subj @ '' problem.\<newline>'' @
     ''          \<newline>'' @
     ''          The student is on step '' @ cur @ '' of '' @ tot @ '' and has provided a good answer.\<newline>'' @
     ''          \<newline>'' @
     ''          Current context: \"'' @ ctx @ ''\"\<newline>'' @
     ''          \<newline>'' @
     ''          Your response should:\<newline>'' @
     ''          1. Provide specific praise for what they did well\<newline>'' @
     ''          2. Reinforce the concept they just demonstrated\<newline>'' @
     ''          3. Connect this knowledge to the bigger picture\<newline>'' @
     ''          4. Present the next challenge with enthusiasm\<newline>'' @
     ''          \<newline>'' @
     ''          Important guidelines:\<newline>'' @
     ''          - Be genuinely excited about their progress\<newline>'' @
     ''          - Highlight specific aspects of their thinking that were effective\<newline>'' @
     ''          - Build momentum and curiosity for the next step\<newline>'' @
     ''          - Keep your response upbeat and motivating\<newline>'' @
     ''        ''"

definition default_template :: "string \<Rightarrow> string \<Rightarrow> string \<Rightarrow> string \<Rightarrow> string" where
  "default_template subj cur tot ctx =
     ''\<newline>'' @
     ''          You are an AI tutor helping a student with a '' @ subj @ '' problem.\<newline>'' @
     ''          \<newline>'' @
     ''          The student is on step '' @ cur @ '' of '' @ tot @ ''.\<newline>'' @
     ''          \<newline>'' @
     ''          Current context: \"'' @ ctx @ ''\"\<newline>'' @
     ''          \<newline>'' @
     ''          Provide guidance that helps them learn, but never give direct answers.\<newline>'' @
     ''        ''"

definition final_step_addendum :: string where
  "final_step_addendum =
     ''\<newline>'' @
     ''        This is the FINAL STEP in the learning process.\<newline>'' @
     ''        \<newline>'' @
     ''        In addition to your regular guidance:\<newline>'' @
     ''        1. Summarize what they've learned through this process\<newline>'' @
     ''        2. Celebrate their accomplishment\<newline>'' @
     ''        3. Suggest how they might apply this knowledge\<newline>'' @
     ''        4. End with a positive, encouraging note\<newline>'' @
     ''      ''"

definition isFinalStep :: "process_body \<Rightarrow> bool" where
  "isFinalStep b = js_ge (current_step b) (total_steps b)"

definition template_for :: "string \<Rightarrow> string \<Rightarrow> string \<Rightarrow> string \<Rightarrow> string \<Rightarrow> string" where
  \<comment> \<open>The \<open>switch\<close> on the response type.\<close>
  "template_for rt =
     (if rt = ''hint'' then hint_template
      else if rt = ''clarification'' then clarification_template
      else if rt = ''encouragement'' then encouragement_template
      else default_template)"

definition systemPrompt :: "process_body \<Rightarrow> string" where
  "systemPrompt b =
     (let rt = (case response_type b of None \<Rightarrow> ''hint'' | Some t \<Rightarrow> t);
          p = template_for rt (interp (subject b)) (interp_num (current_step b))
                (interp_num (total_steps b)) (interp (context' b))
      in if isFinalStep b then p @ final_step_addendum else p)"

definition process_request :: "process_body \<Rightarrow> chat_request" where
  "process_request b =
     \<lparr>model = ''gpt-4'',
      messages =
        [(''system'', Plain (systemPrompt b)),
         (''user'', Plain (''Original question: \"'' @ interp (user_query b) @ ''\"\<newline>\<newline>Student's message: \"'' @ interp (message b) @ ''\"''))],
      temperature = Some (7 / 10),
      max_tokens = 500,
      forced_function = None,
      functions' = []\<rparr>"

definition process_failure :: "exn \<Rightarrow> http_response" where
  "process_failure e =
     \<lparr>status = 500,
      body = [(''success'', JBool False),
              (''message'', JStr ''Error processing learning response''),
              (''error'', JStr (error_message e))]\<rparr>"

definition updatedContext :: "process_body \<Rightarrow> string option \<Rightarrow> string" where
  "updatedContext b responseText =
     interp (context' b) @ ''\<newline>\<newline>Student: '' @ interp (message b) @ ''\<newline>\<newline>Tutor: '' @ interp_null responseText"

definition processLearningResponse ::
  "env \<Rightarrow> process_body \<Rightarrow> http_response \<times> chat_request list" where
  \<comment> \<open>The response, and the requests sent to the provider.\<close>
  "processLearningResponse env b =
     (if \<not> truthy (message b) \<or> \<not> truthy (subject b) then
        (\<lparr>status = 400,
          body = [(''success'', JBool False),
                  (''message'', JStr ''Student message and subject are required'')]\<rparr>, [])
      else
        (case createChatCompletion env (process_request b) of
           Inl e \<Rightarrow> (process_failure e, [process_request b])
         | Inr response \<Rightarrow>
             (case first_message response of
                Inl e \<Rightarrow> (process_failure e, [process_request b])
              | Inr m \<Rightarrow>
                  (\<lparr>status = 200,
                    body = [(''success'', JBool True),
                            (''next_step'', jsval_of (content m)),
                            (''is_final_step'', JBool (isFinalStep b)),
                            (''context'', JStr (updatedContext b (content m)))]\<rparr>,
                   [process_request b]))))"

section \<open>analyzeImage\<close>

text \<open>
  The controller that analyses an uploaded image. The upload itself is the work of the
  \<open>multer\<close> middleware and is not modelled.
\<close>

record image_body =
  image_url :: "string option"
  conversation_id :: "string option"

definition contextPrompt :: string where
  "contextPrompt =
     ''\<newline>'' @
     ''      You are an educational AI tutor for children. A student has uploaded an image.\<newline>'' @
     ''      \<newline>'' @
     ''      Identify what's in the image and determine if it's educational content like:\<newline>'' @
     ''      1. A math problem\<newline>'' @
     ''      2. A science question\<newline>'' @
     ''      3. A reading/writing task\<newline>'' @
     ''      4. Other educational content\<newline>'' @
     ''      \<newline>'' @
     ''      If it's educational content:\<newline>'' @
     ''      - DON'T solve the problem directly\<newline>'' @
     ''      - Provide educational guidance and hints that help the student learn\<newline>'' @
     ''      - Break down the process into steps they can follow\<newline>'' @
     ''      - Use age-appropriate language\<newline>'' @
     ''      - Ask questions to prompt their thinking\<newline>'' @
     ''      \<newline>'' @
     ''      If it's not clearly educational content:\<newline>'' @
     ''      - Just describe what you see and ask if they need help with anything specific\<newline>'' @
     ''      \<newline>'' @
     ''      Format your response to be engaging and encouraging.\<newline>'' @
     ''    ''"

definition vision_request :: "string \<Rightarrow> chat_request" where
  "vision_request url =
     \<lparr>model = ''gpt-4-vision-preview'',
      messages =
        [(''system'', Plain contextPrompt),
         (''user'', Parts [Text_Part ''What's in this image?'', Image_Part url])],
      temperature = None,
      max_tokens = 500,
      forced_function = None,
      functions' = []\<rparr>"

definition educationalContentPatterns :: "regex list" where
  "educationalContentPatterns =
     [lit ''math problem'',
      lit ''equation'',
      lit ''science question'',
      lit ''experiment'',
      Seq (lit ''read'') (Opt (Group 1 (lit ''ing''))),
      Seq (lit ''writ'') (Group 1 (Alt (lit ''ing'') (lit ''e''))),
      lit ''homework'',
      lit ''problem to solve'',
      lit ''steps to follow'']"

definition shouldEnterTutorialMode :: "string \<Rightarrow> bool" where
  "shouldEnterTutorialMode analysis \<longleftrightarrow>
     list_ex (\<lambda>pattern. regex_test True pattern analysis) educationalContentPatterns"

definition steps_request :: "string \<Rightarrow> chat_request" where
  "steps_request analysis =
     \<lparr>model = ''gpt-4'',
      messages =
        [(''system'', Plain ''You are an educational assistant creating step-by-step guidance for a child. Never provide direct answers, only hints and educational guidance.''),
         (''user'', Plain (''Based on this analysis of an educational image, create 3-5 interactive learning steps that guide the child to solve it themselves: \"'' @ analysis @ ''\"''))],
      temperature = None,
      max_tokens = 500,
      forced_function = None,
      functions' = []\<rparr>"

definition re_step :: regex where
  \<comment> \<open>\<open>/\d+\.\s+[^\n]+/g\<close>\<close>
  "re_step =
     Seq (Plus (Atom Digit))
       (Seq (Atom (Chr CHR ''.''))
          (Seq (Plus (Atom Space)) (Plus (Atom (Not_Chr CHR 0x0A)))))"

definition learningSteps :: "string \<Rightarrow> string list" where
  \<comment> \<open>The steps extracted from the text of the second reply.\<close>
  "learningSteps stepsText =
     (case str_match_global False re_step stepsText of
        Some stepMatches \<Rightarrow> map trim stepMatches
      | None \<Rightarrow>
          take 5 (filter (\<lambda>line. length (trim line) > 0) (split_on CHR 0x0A stepsText)))"

definition image_failure :: "exn \<Rightarrow> http_response" where
  "image_failure e =
     \<lparr>status = 500,
      body = [(''success'', JBool False),
              (''message'', JStr ''Error analyzing image''),
              (''error'', JStr (error_message e))]\<rparr>"

definition steps_for :: "env \<Rightarrow> string option \<Rightarrow> exn + string list" where
  \<comment> \<open>The learning steps: empty unless the analysis is educational content.\<close>
  "steps_for env analysis =
     (if shouldEnterTutorialMode (interp_null analysis) then
        (case createChatCompletion env (steps_request (interp_null analysis)) of
           Inl e \<Rightarrow> Inl e
         | Inr stepsResponse \<Rightarrow>
             (case first_message stepsResponse of
                Inl e \<Rightarrow> Inl e
              | Inr m \<Rightarrow>
                  (case content m of
                     None \<Rightarrow> Inl (Error ''Cannot read properties of null (reading 'match')'')
                   | Some stepsText \<Rightarrow> Inr (learningSteps stepsText))))
      else Inr [])"

definition analyzeImage :: "env \<Rightarrow> image_body \<Rightarrow> http_response" where
  "analyzeImage env b =
     (case image_url b of
        None \<Rightarrow>
          \<lparr>status = 400,
           body = [(''success'', JBool False), (''message'', JStr ''Image URL is required'')]\<rparr>
      | Some url \<Rightarrow>
          if url = [] then
            \<lparr>status = 400,
             body = [(''success'', JBool False), (''message'', JStr ''Image URL is required'')]\<rparr>
          else
            (case createChatCompletion env (vision_request url) of
               Inl e \<Rightarrow> image_failure e
             | Inr response \<Rightarrow>
                 (case first_message response of
                    Inl e \<Rightarrow> image_failure e
                  | Inr m \<Rightarrow>
                      (let analysis = content m in
                       case steps_for env analysis of
                         Inl e \<Rightarrow> image_failure e
                       | Inr steps \<Rightarrow>
                           (case createAudio env
                                   \<lparr>audio_model = ''tts-1'', voice = ''alloy'', input = analysis\<rparr> of
                              Inl e \<Rightarrow> image_failure e
                            | Inr audio \<Rightarrow>
                                (let audioFileName =
                                       ''response-'' @ show_nat (date_now env) @ ''.mp3''
                                 in case save_audio env audioFileName audio of
                                      Some e \<Rightarrow> image_failure e
                                    | None \<Rightarrow>
                                        \<lparr>status = 200,
                                         body =
                                           [(''success'', JBool True),
                                            (''response'', jsval_of analysis),
                                            (''audio_url'',
                                               JStr (base_url env @ ''/uploads/audio/'' @
                                                     audioFileName)),
                                            (''should_enter_tutorial_mode'',
                                               JBool (shouldEnterTutorialMode
                                                        (interp_null analysis))),
                                            (''learning_context'', jsval_of analysis),
                                            (''learning_steps'',
                                               JArr (map JStr steps))]\<rparr>))))))"


section \<open>Notions used in the statements\<close>

definition system_content :: "chat_request \<Rightarrow> content option" where
  \<comment> \<open>The content of the system message of a request.\<close>
  "system_content rq = map_of (messages rq) ''system''"

definition field :: "http_response \<times> chat_request list \<Rightarrow> string \<Rightarrow> jsval option" where
  \<comment> \<open>A field of the JSON body of the response of a controller.\<close>
  "field out k = map_of (body (fst out)) k"

text \<open>
  The meaning of a pattern, independent of the order in which the matcher tries the
  alternatives: \<open>sem ci r u cs cs'\<close> holds when the pattern \<open>r\<close> matches exactly the text
  \<open>u\<close>, turning the captures \<open>cs\<close> into \<open>cs'\<close>.
\<close>

inductive sem :: "bool \<Rightarrow> regex \<Rightarrow> string \<Rightarrow> caps \<Rightarrow> caps \<Rightarrow> bool" for ci :: bool where
  sem_Atom: "atom_ok ci a c \<Longrightarrow> sem ci (Atom a) [c] cs cs"
| sem_Eps: "sem ci Eps [] cs cs"
| sem_Seq: "sem ci r1 u cs cs1 \<Longrightarrow> sem ci r2 v cs1 cs2 \<Longrightarrow> sem ci (Seq r1 r2) (u @ v) cs cs2"
| sem_AltL: "sem ci r1 u cs cs' \<Longrightarrow> sem ci (Alt r1 r2) u cs cs'"
| sem_AltR: "sem ci r2 u cs cs' \<Longrightarrow> sem ci (Alt r1 r2) u cs cs'"
| sem_Star_Nil: "sem ci (Star r) [] cs cs"
| sem_Star_Cons: "u \<noteq> [] \<Longrightarrow> sem ci r u cs cs1 \<Longrightarrow> sem ci (Star r) v cs1 cs2
     \<Longrightarrow> sem ci (Star r) (u @ v) cs cs2"
| sem_Group: "sem ci r u cs cs1 \<Longrightarrow> sem ci (Group k r) u cs ((k, u) # cs1)"

definition ci_equal :: "string \<Rightarrow> string \<Rightarrow> bool" where
  \<comment> \<open>Equal up to the case of the letters a to z.\<close>
  "ci_equal u w \<longleftrightarrow> map canonicalize u = map canonicalize w"

definition contains_ci :: "string \<Rightarrow> string \<Rightarrow> bool" where
  \<comment> \<open>The phrase \<open>w\<close> occurs somewhere in \<open>s\<close>, in any case.\<close>
  "contains_ci w s \<longleftrightarrow> (\<exists>pre m post. s = pre @ m @ post \<and> ci_equal m w)"

definition educational_phrases :: "string list" where
  "educational_phrases =
     [''math problem'', ''equation'', ''science question'', ''experiment'', ''read'',
      ''reading'', ''write'', ''writing'', ''homework'', ''problem to solve'',
      ''steps to follow'']"

definition is_trimmed :: "string \<Rightarrow> bool" where
  \<comment> \<open>No white space at either end.\<close>
  "is_trimmed x \<longleftrightarrow> (x \<noteq> [] \<longrightarrow> \<not> is_space (hd x) \<and> \<not> is_space (last x))"

definition ordinal_text :: "string \<Rightarrow> bool" where
  \<comment> \<open>Digits, a period, white space, then characters other than a line feed.\<close>
  "ordinal_text m \<longleftrightarrow>
     (\<exists>ds ws rest. m = ds @ ''.'' @ ws @ rest \<and>
        ds \<noteq> [] \<and> (\<forall>c\<in>set ds. is_digit c) \<and>
        ws \<noteq> [] \<and> (\<forall>c\<in>set ws. is_space c) \<and>
        rest \<noteq> [] \<and> CHR 0x0A \<notin> set rest)"

definition occurs :: "(string \<Rightarrow> bool) \<Rightarrow> string \<Rightarrow> bool" where
  \<comment> \<open>Some part of the text satisfies \<open>P\<close>.\<close>
  "occurs P s \<longleftrightarrow> (\<exists>pre m post. s = pre @ m @ post \<and> P m)"

text \<open>
  The matches of a search that is repeated over the text: each one is the leftmost part of
  what remains that satisfies \<open>P\<close>, and the search goes on behind it until nothing is left.
\<close>

inductive successive :: "(string \<Rightarrow> bool) \<Rightarrow> string \<Rightarrow> string list \<Rightarrow> bool"
  for P :: "string \<Rightarrow> bool" where
  successive_Nil: "\<not> occurs P s \<Longrightarrow> successive P s []"
| successive_Cons: "s = pre @ m @ rest \<Longrightarrow> P m \<Longrightarrow> m \<noteq> [] \<Longrightarrow>
     (\<forall>pre' m' post'. s = pre' @ m' @ post' \<and> P m' \<longrightarrow> length pre \<le> length pre') \<Longrightarrow>
     successive P rest ms \<Longrightarrow> successive P s (m # ms)"

definition blank :: "string \<Rightarrow> bool" where
  \<comment> \<open>A line of white space only.\<close>
  "blank line \<longleftrightarrow> list_all is_space line"

definition starts_with_ordinal :: "string \<Rightarrow> bool" where
  \<comment> \<open>The ordinal pattern in the words of the specification: digits and a period at the
      start of a line.\<close>
  "starts_with_ordinal line \<longleftrightarrow>
     (let ds = takeWhile is_digit line in ds \<noteq> [] \<and> take 1 (drop (length ds) line) = ''.'')"

definition decimal :: "string \<Rightarrow> int" where
  \<comment> \<open>The number that a run of decimal digits writes.\<close>
  "decimal ds = foldl (\<lambda>acc c. 10 * acc + (of_char c - 48)) 0 ds"

text \<open>
  The two patterns of the free-text branch in the words of the specification. At the
  position \<open>i\<close> of the text stands the key word in any case, then white space, then the
  captured text: \<open>true\<close> or \<open>false\<close> in any case for \<open>correct:\<close>, and the whole run of
  digits for \<open>confusion:\<close>.
\<close>

definition correct_match_at :: "string \<Rightarrow> nat \<Rightarrow> string \<Rightarrow> bool" where
  "correct_match_at s i cap \<longleftrightarrow>
     i \<le> length s \<and>
     (\<exists>kw ws post. drop i s = kw @ ws @ cap @ post \<and> ci_equal kw ''correct:'' \<and>
        (\<forall>c\<in>set ws. is_space c) \<and> (ci_equal cap ''true'' \<or> ci_equal cap ''false''))"

definition confusion_match_at :: "string \<Rightarrow> nat \<Rightarrow> string \<Rightarrow> bool" where
  "confusion_match_at s i cap \<longleftrightarrow>
     i \<le> length s \<and>
     (\<exists>kw ws post. drop i s = kw @ ws @ cap @ post \<and> ci_equal kw ''confusion:'' \<and>
        (\<forall>c\<in>set ws. is_space c) \<and> cap \<noteq> [] \<and> (\<forall>c\<in>set cap. is_digit c) \<and>
        (post = [] \<or> \<not> is_digit (hd post)))"

definition first_at :: "(nat \<Rightarrow> string \<Rightarrow> bool) \<Rightarrow> nat \<Rightarrow> string \<Rightarrow> bool" where
  \<comment> \<open>The match at the first position that has one.\<close>
  "first_at M i cap \<longleftrightarrow> M i cap \<and> (\<forall>j<i. \<forall>c. \<not> M j c)"

definition stated_is_correct :: "string \<Rightarrow> bool" where
  \<comment> \<open>The text matches the pattern for \<open>correct:\<close>, and the first match captures
      \<open>true\<close>.\<close>
  "stated_is_correct s \<longleftrightarrow> (\<exists>i cap. first_at (correct_match_at s) i cap \<and> ci_equal cap ''true'')"

definition stated_confusion_level :: "string \<Rightarrow> int \<Rightarrow> bool" where
  \<comment> \<open>The number captured by the first match of the pattern for \<open>confusion:\<close>, and 5
      when there is no match.\<close>
  "stated_confusion_level s v \<longleftrightarrow>
     (\<exists>i cap. first_at (confusion_match_at s) i cap \<and> v = decimal cap) \<or>
     ((\<forall>i cap. \<not> confusion_match_at s i cap) \<and> v = 5)"

subsection \<open>Example requests and environments\<close>

definition reply_with :: "string \<Rightarrow> chat_reply" where
  \<comment> \<open>A reply of one choice that holds free text and no function call.\<close>
  "reply_with text = \<lparr>choices = [\<lparr>function_call = None, content = Some text\<rparr>]\<rparr>"

definition env_replying :: "(chat_request \<Rightarrow> exn + chat_reply) \<Rightarrow> env" where
  \<comment> \<open>An environment around a given provider: the other services succeed.\<close>
  "env_replying provider =
     \<lparr>createChatCompletion = provider,
      JSON_parse = (\<lambda>_. Inl (Error ''Unexpected end of JSON input'')),
      createAudio = (\<lambda>_. Inr ''mp3''),
      save_audio = (\<lambda>_ _. None),
      date_now = 1700000000000,
      base_url = ''http://localhost:3000''\<rparr>"

definition example_turn :: process_body where
  "example_turn =
     \<lparr>message = Some ''Is it 12?'', user_query = Some ''What is 7 + 5?'',
      subject = Some ''math'', current_step = Some 3, total_steps = Some 3,
      context' = Some ''Adding two numbers'', response_type = Some ''quiz''\<rparr>"

definition example_answer :: analyze_body where
  "example_answer =
     \<lparr>studentResponse = Some ''I think it is 12'', context' = Some ''Add 7 and 5'',
      subject = Some ''math'', currentStep = Some 1, totalSteps = Some 3\<rparr>"

definition example_image :: image_body where
  "example_image =
     \<lparr>image_url = Some ''http://localhost:3000/uploads/images/1.png'', conversation_id = None\<rparr>"

definition example_payload_env :: env where
  \<comment> \<open>The provider answers with a function call whose arguments parse to an object
      without the field \<open>misconceptions\<close>.\<close>
  "example_payload_env =
     \<lparr>createChatCompletion =
        (\<lambda>_. Inr \<lparr>choices =
                  [\<lparr>function_call =
                      Some \<lparr>name = ''analyze_student_response'',
                            arguments =
                              ''{\"is_correct\":true,\"confusion_level\":3,\"feedback\":\"ok\"}''\<rparr>,
                    content = None\<rparr>]\<rparr>),
      JSON_parse =
        (\<lambda>_. Inr (JObj [(''is_correct'', JBool True), (''confusion_level'', JNum 3),
                         (''feedback'', JStr ''ok'')])),
      createAudio = (\<lambda>_. Inr ''mp3''),
      save_audio = (\<lambda>_ _. None),
      date_now = 1700000000000,
      base_url = ''http://localhost:3000''\<rparr>"

section \<open>The matcher and the meaning of a pattern\<close>

lemma rmatch_Star_set:
  "(n, cs') \<in> set (rmatch ci (Star r) s cs) \<longleftrightarrow>
     (n = 0 \<and> cs' = cs) \<or>
     (\<exists>k cs1 m. (k, cs1) \<in> set (rmatch ci r s cs) \<and> 0 < k \<and> k \<le> length s \<and>
        (m, cs') \<in> set (rmatch ci (Star r) (drop k s) cs1) \<and> n = k + m)"
proof -
  define F where "F = (\<lambda>(k, cs1). if 0 < k \<and> k \<le> length s
      then map (\<lambda>(m, c). (k + m, c)) (rmatch ci (Star r) (drop k s) cs1) else [])"
  have eq: "rmatch ci (Star r) s cs = concat (map F (rmatch ci r s cs)) @ [(0, cs)]"
    unfolding F_def by (subst rmatch.simps(5)) (rule refl)
  have F: "(n, cs') \<in> set (F (k, cs1)) \<longleftrightarrow>
      0 < k \<and> k \<le> length s \<and>
      (\<exists>m. (m, cs') \<in> set (rmatch ci (Star r) (drop k s) cs1) \<and> n = k + m)" for k cs1
    by (auto simp: F_def)
  have "(n, cs') \<in> set (rmatch ci (Star r) s cs) \<longleftrightarrow>
      (\<exists>k cs1. (k, cs1) \<in> set (rmatch ci r s cs) \<and> (n, cs') \<in> set (F (k, cs1))) \<or>
      (n, cs') = (0, cs)"
    unfolding eq by auto
  then show ?thesis
    unfolding F by blast
qed

lemma rmatch_sound:
  "(n, cs') \<in> set (rmatch ci r s cs) \<Longrightarrow> n \<le> length s \<and> sem ci r (take n s) cs cs'"
proof (induction ci r s cs arbitrary: n cs' rule: rmatch.induct)
  case (1 ci a s cs)
  then show ?case
    by (cases s) (auto split: if_splits intro: sem.intros)
next
  case (2 ci s cs)
  then show ?case by (auto intro: sem.intros)
next
  case (3 ci r1 r2 s cs)
  from "3.prems" obtain k cs1 m where
    k: "(k, cs1) \<in> set (rmatch ci r1 s cs)" and
    m: "(m, cs') \<in> set (rmatch ci r2 (drop k s) cs1)" and n: "n = k + m"
    by auto
  from "3.IH"(1)[OF k] have k1: "k \<le> length s" "sem ci r1 (take k s) cs cs1" by auto
  from "3.IH"(2)[OF k refl m] have m1: "m \<le> length (drop k s)" "sem ci r2 (take m (drop k s)) cs1 cs'"
    by auto
  have "take n s = take k s @ take m (drop k s)"
    using n by (simp add: take_add)
  with k1 m1 n show ?case
    by (auto intro: sem.intros)
next
  case (4 ci r1 r2 s cs)
  then show ?case by (auto intro: sem.intros)
next
  case (5 ci r s cs)
  from "5.prems" consider "n = 0" "cs' = cs"
    | k cs1 m where "(k, cs1) \<in> set (rmatch ci r s cs)" "0 < k" "k \<le> length s"
        "(m, cs') \<in> set (rmatch ci (Star r) (drop k s) cs1)" "n = k + m"
    unfolding rmatch_Star_set[of n cs'] by blast
  then show ?case
  proof cases
    case 1
    then show ?thesis by (auto intro: sem.intros)
  next
    case 2
    from "5.IH"(1)[OF 2(1)] have k1: "sem ci r (take k s) cs cs1" by auto
    from "5.IH"(2)[OF 2(1) refl _ 2(4)] 2
    have m1: "m \<le> length (drop k s)" "sem ci (Star r) (take m (drop k s)) cs1 cs'"
      by auto
    have t: "take n s = take k s @ take m (drop k s)"
      using 2 by (simp add: take_add)
    have "take k s \<noteq> []" using 2 by auto
    with k1 m1 2 t show ?thesis
      by (auto intro: sem.intros)
  qed
next
  case (6 ci k r s cs)
  then show ?case by (auto intro: sem.intros)
qed

lemma rmatch_complete:
  "sem ci r u cs cs' \<Longrightarrow> (length u, cs') \<in> set (rmatch ci r (u @ v) cs)"
proof (induction arbitrary: v rule: sem.induct)
  case (sem_Seq r1 u cs cs1 r2 w cs2)
  have "(length u, cs1) \<in> set (rmatch ci r1 (u @ w @ v) cs)"
    using sem_Seq.IH(1)[of "w @ v"] by simp
  moreover have "(length w, cs2) \<in> set (rmatch ci r2 (drop (length u) (u @ w @ v)) cs1)"
    using sem_Seq.IH(2)[of v] by simp
  ultimately show ?case
    by (force simp del: drop_append append_eq_append_conv)
next
  case (sem_Star_Cons u r cs cs1 w cs2)
  have a: "(length u, cs1) \<in> set (rmatch ci r (u @ w @ v) cs)"
    using sem_Star_Cons.IH(1)[of "w @ v"] by simp
  have b: "(length w, cs2) \<in> set (rmatch ci (Star r) (drop (length u) (u @ w @ v)) cs1)"
    using sem_Star_Cons.IH(2)[of v] by simp
  have c: "0 < length u \<and> length u \<le> length (u @ w @ v)"
    using sem_Star_Cons.hyps(1) by simp
  show ?case
    unfolding rmatch_Star_set[of "length (u @ w)"]
    apply (rule disjI2)
    apply (rule exI[of _ "length u"], rule exI[of _ cs1], rule exI[of _ "length w"])
    using a b c by simp
next
  case (sem_Star_Nil r cs)
  show ?case unfolding rmatch_Star_set[of "length []"] by simp
next
  case (sem_Group r u cs cs1 k)
  have "(length u, cs1) \<in> set (rmatch ci r (u @ v) cs)"
    by (rule sem_Group.IH)
  then show ?case
    by (auto simp: image_iff intro!: bexI[of _ "(length u, cs1)"])
qed (auto)


lemma find_first_None_iff:
  "find_first ci r s = None \<longleftrightarrow> (\<forall>i\<le>length s. rmatch ci r (drop i s) [] = [])"
proof (induction s)
  case Nil
  then show ?case by (auto split: list.splits)
next
  case (Cons c t)
  have "(\<forall>i\<le>length (c # t). rmatch ci r (drop i (c # t)) [] = []) \<longleftrightarrow>
        rmatch ci r (c # t) [] = [] \<and> (\<forall>i\<le>length t. rmatch ci r (drop i t) [] = [])"
  proof
    assume a: "\<forall>i\<le>length (c # t). rmatch ci r (drop i (c # t)) [] = []"
    have "rmatch ci r (c # t) [] = []" using a[rule_format, of 0] by simp
    moreover have "\<forall>i\<le>length t. rmatch ci r (drop i t) [] = []"
    proof (intro allI impI)
      fix i assume "i \<le> length t"
      then show "rmatch ci r (drop i t) [] = []" using a[rule_format, of "Suc i"] by simp
    qed
    ultimately show "rmatch ci r (c # t) [] = [] \<and> (\<forall>i\<le>length t. rmatch ci r (drop i t) [] = [])"
      by blast
  next
    assume a: "rmatch ci r (c # t) [] = [] \<and> (\<forall>i\<le>length t. rmatch ci r (drop i t) [] = [])"
    show "\<forall>i\<le>length (c # t). rmatch ci r (drop i (c # t)) [] = []"
    proof (intro allI impI)
      fix i assume "i \<le> length (c # t)"
      then show "rmatch ci r (drop i (c # t)) [] = []"
        using a by (cases i) auto
    qed
  qed
  with Cons show ?case
    by (auto split: list.splits)
qed

lemma find_first_Some_iff:
  "find_first ci r s = Some (i, n, cs) \<longleftrightarrow>
     i \<le> length s \<and> (\<exists>rest. rmatch ci r (drop i s) [] = (n, cs) # rest) \<and>
     (\<forall>j<i. rmatch ci r (drop j s) [] = [])"
proof (induction s arbitrary: i)
  case Nil
  then show ?case by (auto split: list.splits)
next
  case (Cons c t)
  show ?case
  proof (cases "rmatch ci r (c # t) []")
    case Nil
    have "find_first ci r (c # t) = Some (i, n, cs) \<longleftrightarrow>
          (\<exists>i'. i = Suc i' \<and> find_first ci r t = Some (i', n, cs))"
      using Nil by auto
    also have "\<dots> \<longleftrightarrow> (\<exists>i'. i = Suc i' \<and> i' \<le> length t \<and>
          (\<exists>rest. rmatch ci r (drop i' t) [] = (n, cs) # rest) \<and>
          (\<forall>j<i'. rmatch ci r (drop j t) [] = []))"
      using Cons.IH by simp
    also have "\<dots> \<longleftrightarrow> i \<le> length (c # t) \<and>
          (\<exists>rest. rmatch ci r (drop i (c # t)) [] = (n, cs) # rest) \<and>
          (\<forall>j<i. rmatch ci r (drop j (c # t)) [] = [])"
    proof (cases i)
      case 0
      then show ?thesis using Nil by simp
    next
      case (Suc i')
      have "(\<forall>j<Suc i'. rmatch ci r (drop j (c # t)) [] = []) \<longleftrightarrow>
            (\<forall>j<i'. rmatch ci r (drop j t) [] = [])"
      proof
        assume a: "\<forall>j<Suc i'. rmatch ci r (drop j (c # t)) [] = []"
        show "\<forall>j<i'. rmatch ci r (drop j t) [] = []"
        proof (intro allI impI)
          fix j assume "j < i'"
          then show "rmatch ci r (drop j t) [] = []" using a[rule_format, of "Suc j"] by simp
        qed
      next
        assume a: "\<forall>j<i'. rmatch ci r (drop j t) [] = []"
        show "\<forall>j<Suc i'. rmatch ci r (drop j (c # t)) [] = []"
        proof (intro allI impI)
          fix j assume "j < Suc i'"
          then show "rmatch ci r (drop j (c # t)) [] = []"
            using a Nil by (cases j) auto
        qed
      qed
      with Suc show ?thesis by simp
    qed
    finally show ?thesis .
  next
    case (Cons a rest)
    obtain n' cs' where a: "a = (n', cs')" by (cases a)
    have "find_first ci r (c # t) = Some (0, n', cs')"
      using Cons a by simp
    moreover have "i \<le> length (c # t) \<and>
          (\<exists>rest. rmatch ci r (drop i (c # t)) [] = (n, cs) # rest) \<and>
          (\<forall>j<i. rmatch ci r (drop j (c # t)) [] = []) \<longleftrightarrow> i = 0 \<and> n = n' \<and> cs = cs'"
    proof (cases i)
      case 0
      then show ?thesis using Cons a by auto
    next
      case (Suc i')
      have "\<not> (\<forall>j<Suc i'. rmatch ci r (drop j (c # t)) [] = [])"
        using Cons by (auto intro!: exI[of _ 0])
      with Suc show ?thesis by simp
    qed
    ultimately show ?thesis by auto
  qed
qed

inductive_simps sem_Atom_iff: "sem ci (Atom a) u cs cs'"
inductive_simps sem_Eps_iff: "sem ci Eps u cs cs'"
inductive_simps sem_Seq_iff: "sem ci (Seq r1 r2) u cs cs'"
inductive_simps sem_Alt_iff: "sem ci (Alt r1 r2) u cs cs'"
inductive_simps sem_Group_iff: "sem ci (Group k r) u cs cs'"
inductive_simps sem_Star_iff: "sem ci (Star r) u cs cs'"


lemma sem_Atom_Seq:
  "sem ci (Seq (Atom a) r) u cs cs' \<longleftrightarrow>
     (\<exists>c v. u = c # v \<and> atom_ok ci a c \<and> sem ci r v cs cs')"
proof
  assume "sem ci (Seq (Atom a) r) u cs cs'"
  then obtain x v cs1 where "u = x @ v" "sem ci (Atom a) x cs cs1" "sem ci r v cs1 cs'"
    unfolding sem_Seq_iff by blast
  then show "\<exists>c v. u = c # v \<and> atom_ok ci a c \<and> sem ci r v cs cs'"
    unfolding sem_Atom_iff by auto
next
  assume "\<exists>c v. u = c # v \<and> atom_ok ci a c \<and> sem ci r v cs cs'"
  then obtain c v where u: "u = [c] @ v" and c: "atom_ok ci a c" and v: "sem ci r v cs cs'"
    by auto
  show "sem ci (Seq (Atom a) r) u cs cs'"
    unfolding u by (rule sem_Seq[OF sem_Atom[OF c] v])
qed

lemma sem_lit:
  "sem ci (lit w) u cs cs' \<longleftrightarrow> cs' = cs \<and> list_all2 (\<lambda>p c. atom_ok ci (Chr p) c) w u"
proof (induction w arbitrary: u)
  case Nil
  then show ?case by (auto simp: lit_def sem_Eps_iff)
next
  case (Cons p w)
  have l: "lit (p # w) = Seq (Atom (Chr p)) (lit w)"
    by (simp add: lit_def)
  show ?case
    unfolding l sem_Atom_Seq Cons.IH list_all2_Cons1 by blast
qed

lemma list_all2_ci: "list_all2 (\<lambda>p c. canonicalize p = canonicalize c) w u \<longleftrightarrow> ci_equal u w"
  unfolding ci_equal_def
  by (induction w arbitrary: u) (auto simp: list_all2_Cons1)

lemma sem_lit_ci: "sem True (lit w) u cs cs' \<longleftrightarrow> cs' = cs \<and> ci_equal u w"
  by (simp add: sem_lit list_all2_ci)

lemma regex_test_iff:
  "regex_test ci r s \<longleftrightarrow> (\<exists>pre m post cs. s = pre @ m @ post \<and> sem ci r m [] cs)"
proof
  assume "regex_test ci r s"
  then obtain i where i: "i \<le> length s" "rmatch ci r (drop i s) [] \<noteq> []"
    unfolding regex_test_def find_first_None_iff by blast
  then obtain n cs where "(n, cs) \<in> set (rmatch ci r (drop i s) [])"
    by (cases "rmatch ci r (drop i s) []") auto
  from rmatch_sound[OF this] have "sem ci r (take n (drop i s)) [] cs"
    by simp
  moreover have "s = take i s @ take n (drop i s) @ drop n (drop i s)"
    by (metis append_take_drop_id)
  ultimately show "\<exists>pre m post cs. s = pre @ m @ post \<and> sem ci r m [] cs"
    by blast
next
  assume "\<exists>pre m post cs. s = pre @ m @ post \<and> sem ci r m [] cs"
  then obtain pre m post cs where s: "s = pre @ m @ post" and m: "sem ci r m [] cs"
    by blast
  from rmatch_complete[OF m, of post] have "rmatch ci r (drop (length pre) s) [] \<noteq> []"
    unfolding s by auto
  moreover have "length pre \<le> length s"
    unfolding s by simp
  ultimately show "regex_test ci r s"
    unfolding regex_test_def find_first_None_iff by blast
qed

lemma regex_test_lit: "regex_test True (lit w) s \<longleftrightarrow> contains_ci w s"
  by (simp add: regex_test_iff sem_lit_ci contains_ci_def)

lemma ci_equal_append:
  "ci_equal m (a @ b) \<longleftrightarrow> (\<exists>u v. m = u @ v \<and> ci_equal u a \<and> ci_equal v b)"
proof
  assume h: "ci_equal m (a @ b)"
  then have "length m = length a + length b"
    unfolding ci_equal_def by (metis length_append length_map)
  have "map canonicalize (take (length a) m) = map canonicalize a"
    using h unfolding ci_equal_def by (metis append_eq_conv_conj take_map)
  moreover have "map canonicalize (drop (length a) m) = map canonicalize b"
    using h unfolding ci_equal_def by (metis append_eq_conv_conj drop_map)
  ultimately show "\<exists>u v. m = u @ v \<and> ci_equal u a \<and> ci_equal v b"
    unfolding ci_equal_def by (metis append_take_drop_id)
next
  assume "\<exists>u v. m = u @ v \<and> ci_equal u a \<and> ci_equal v b"
  then show "ci_equal m (a @ b)"
    unfolding ci_equal_def by auto
qed

lemma contains_ci_append_left: "contains_ci (a @ b) s \<Longrightarrow> contains_ci a s"
  unfolding contains_ci_def ci_equal_append
  by (metis append.assoc)

lemma regex_test_read:
  "regex_test True (Seq (lit ''read'') (Opt (Group k (lit ''ing'')))) s \<longleftrightarrow> contains_ci ''read'' s"
proof
  assume "regex_test True (Seq (lit ''read'') (Opt (Group k (lit ''ing'')))) s"
  then obtain pre m post u v where "s = pre @ m @ post" "m = u @ v" "ci_equal u ''read''"
    unfolding regex_test_iff sem_Seq_iff sem_lit_ci by blast
  then have "s = pre @ u @ (v @ post)" by simp
  with \<open>ci_equal u ''read''\<close> show "contains_ci ''read'' s"
    unfolding contains_ci_def by blast
next
  assume "contains_ci ''read'' s"
  then obtain pre m post where s: "s = pre @ m @ post" and m: "ci_equal m ''read''"
    unfolding contains_ci_def by blast
  have 1: "sem True (lit ''read'') m [] []"
    by (simp add: sem_lit_ci m)
  have 2: "sem True (Opt (Group k (lit ''ing''))) [] [] []"
    unfolding Opt_def by (rule sem_AltR) (rule sem_Eps)
  have "sem True (Seq (lit ''read'') (Opt (Group k (lit ''ing'')))) (m @ []) [] []"
    by (rule sem_Seq[OF 1 2])
  with s show "regex_test True (Seq (lit ''read'') (Opt (Group k (lit ''ing'')))) s"
    unfolding regex_test_iff by (metis append_Nil2)
qed

lemma regex_test_writ:
  "regex_test True (Seq (lit ''writ'') (Group k (Alt (lit ''ing'') (lit ''e'')))) s \<longleftrightarrow>
     contains_ci ''writing'' s \<or> contains_ci ''write'' s"
proof -
  have "(\<exists>cs. sem True (Seq (lit ''writ'') (Group k (Alt (lit ''ing'') (lit ''e'')))) m [] cs) \<longleftrightarrow>
        ci_equal m (''writ'' @ ''ing'') \<or> ci_equal m (''writ'' @ ''e'')" for m
    unfolding sem_Seq_iff sem_Group_iff sem_Alt_iff sem_lit_ci ci_equal_append
    by blast
  then have "(\<exists>cs. sem True (Seq (lit ''writ'') (Group k (Alt (lit ''ing'') (lit ''e'')))) m [] cs) \<longleftrightarrow>
        ci_equal m ''writing'' \<or> ci_equal m ''write''" for m
    by simp
  then show ?thesis
    unfolding regex_test_iff contains_ci_def by blast
qed

lemma sem_Star_atomD:
  "sem ci r u cs cs' \<Longrightarrow> r = Star (Atom a) \<Longrightarrow> cs' = cs \<and> (\<forall>c\<in>set u. atom_ok ci a c)"
  by (induction rule: sem.induct) (auto simp: sem_Atom_iff)

lemma sem_Star_atomI:
  "\<forall>c\<in>set u. atom_ok ci a c \<Longrightarrow> sem ci (Star (Atom a)) u cs cs"
proof (induction u)
  case Nil
  show ?case by (rule sem_Star_Nil)
next
  case (Cons c u)
  have "sem ci (Star (Atom a)) ([c] @ u) cs cs"
    by (rule sem_Star_Cons[OF _ sem_Atom]) (use Cons in auto)
  then show ?case by simp
qed

lemma sem_Star_atom:
  "sem ci (Star (Atom a)) u cs cs' \<longleftrightarrow> cs' = cs \<and> (\<forall>c\<in>set u. atom_ok ci a c)"
  using sem_Star_atomD[of ci "Star (Atom a)" u cs cs' a] sem_Star_atomI[of u ci a cs]
  by blast

lemma sem_Plus_atom:
  "sem ci (Plus (Atom a)) u cs cs' \<longleftrightarrow> cs' = cs \<and> u \<noteq> [] \<and> (\<forall>c\<in>set u. atom_ok ci a c)"
  unfolding Plus_def sem_Atom_Seq sem_Star_atom by (cases u) auto

lemma match_all_Nil_iff: "match_all ci r s = [] \<longleftrightarrow> find_first ci r s = None"
  by (subst match_all.simps) (auto split: option.splits)

lemma str_match_global_None_iff: "str_match_global ci r s = None \<longleftrightarrow> \<not> regex_test ci r s"
proof -
  have "str_match_global ci r s = None \<longleftrightarrow> match_all ci r s = []"
    by (simp add: str_match_global_def split: list.splits)
  then show ?thesis
    by (simp only: match_all_Nil_iff regex_test_def not_not)
qed

lemma str_match_global_Some:
  "regex_test ci r s \<Longrightarrow> str_match_global ci r s = Some (match_all ci r s)"
  using match_all_Nil_iff[of ci r s]
  by (cases "match_all ci r s") (simp_all add: str_match_global_def regex_test_def)

lemma match_all_successive:
  assumes nonempty: "\<And>u cs. sem ci r u [] cs \<Longrightarrow> u \<noteq> []"
  shows "successive (\<lambda>m. \<exists>cs. sem ci r m [] cs) s (match_all ci r s)"
  using nonempty
proof (induction ci r s rule: match_all.induct)
  case (1 ci r s)
  note nonempty = "1.prems"
  let ?P = "\<lambda>m. \<exists>cs. sem ci r m [] cs"
  show ?case
  proof (cases "find_first ci r s")
    case None
    then have "\<not> occurs ?P s"
      using regex_test_iff[of ci r s] by (auto simp: regex_test_def occurs_def)
    moreover have "match_all ci r s = []"
      using None by (simp add: match_all_Nil_iff)
    ultimately show ?thesis
      by (simp add: successive_Nil)
  next
    case (Some a)
    obtain i n cs where a: "a = (i, n, cs)"
      by (cases a)
    from Some a have f: "find_first ci r s = Some (i, n, cs)"
      by simp
    then obtain rest where i: "i \<le> length s" and
      hd: "rmatch ci r (drop i s) [] = (n, cs) # rest" and
      first: "\<forall>j<i. rmatch ci r (drop j s) [] = []"
      unfolding find_first_Some_iff by blast
    have "(n, cs) \<in> set (rmatch ci r (drop i s) [])"
      using hd by simp
    from rmatch_sound[OF this] have n: "n \<le> length (drop i s)" and
      m: "sem ci r (take n (drop i s)) [] cs"
      by auto
    from nonempty[OF m] have n0: "0 < n"
      by auto
    then have mx: "max n 1 = n" and mx': "max n (Suc 0) = n"
      by simp_all
    have le: "i + n \<le> length s"
      using n i by simp
    have eq: "match_all ci r s = take n (drop i s) # match_all ci r (drop (i + n) s)"
      by (subst match_all.simps) (simp add: f mx' le)
    have split: "s = take i s @ take n (drop i s) @ drop (i + n) s"
      by (metis append_take_drop_id drop_drop add.commute)
    have leftmost: "\<forall>pre' m' post'. s = pre' @ m' @ post' \<and> ?P m' \<longrightarrow>
        length (take i s) \<le> length pre'"
    proof (intro allI impI)
      fix pre' m' post'
      assume h: "s = pre' @ m' @ post' \<and> ?P m'"
      then obtain cs' where "sem ci r m' [] cs'"
        by blast
      from rmatch_complete[OF this, of post'] have "rmatch ci r (drop (length pre') s) [] \<noteq> []"
        using h by auto
      with first have "\<not> length pre' < i"
        by blast
      then show "length (take i s) \<le> length pre'"
        by simp
    qed
    have IH: "successive ?P (drop (i + n) s) (match_all ci r (drop (i + n) s))"
      using "1.IH"[OF f refl refl _ nonempty] le mx by simp
    have "successive ?P s (take n (drop i s) # match_all ci r (drop (i + n) s))"
      by (rule successive_Cons[OF split _ _ leftmost IH]) (use m nonempty in blast)+
    then show ?thesis
      by (simp add: eq)
  qed
qed

subsection \<open>What the matcher returns for the shapes that the patterns use\<close>

lemma rev_upt_Suc: "rev [0..<Suc n] = map Suc (rev [0..<n]) @ [0]"
proof -
  have "[0..<Suc n] = 0 # map Suc [0..<n]"
    by (simp add: upt_conv_Cons map_Suc_upt del: upt_Suc)
  then show ?thesis
    by (simp add: rev_map)
qed

lemma rmatch_Star_atom:
  "rmatch ci (Star (Atom a)) s cs =
     map (\<lambda>k. (k, cs)) (rev [0..<Suc (length (takeWhile (atom_ok ci a) s))])"
proof (induction s)
  case Nil
  show ?case
    by (subst rmatch.simps(5)) simp
next
  case (Cons c t)
  show ?case
  proof (cases "atom_ok ci a c")
    case True
    have "rmatch ci (Star (Atom a)) (c # t) cs =
        map (\<lambda>(m, cs2). (Suc m, cs2)) (rmatch ci (Star (Atom a)) t cs) @ [(0, cs)]"
      by (subst rmatch.simps(5)) (simp add: True)
    also have "\<dots> = map (\<lambda>k. (k, cs)) (map Suc (rev [0..<Suc (length (takeWhile (atom_ok ci a) t))]) @ [0])"
      by (simp add: Cons.IH comp_def del: upt_Suc)
    also have "\<dots> = map (\<lambda>k. (k, cs)) (rev [0..<Suc (Suc (length (takeWhile (atom_ok ci a) t)))])"
      by (simp only: rev_upt_Suc[of "Suc (length (takeWhile (atom_ok ci a) t))"])
    finally show ?thesis
      by (simp add: True del: upt_Suc)
  next
    case False
    show ?thesis
      by (subst rmatch.simps(5)) (simp add: False)
  qed
qed


lemma rmatch_Plus_atom:
  "rmatch ci (Plus (Atom a)) s cs =
     map (\<lambda>k. (k, cs)) (rev [1..<Suc (length (takeWhile (atom_ok ci a) s))])"
proof (cases s)
  case Nil
  then show ?thesis by (simp add: Plus_def)
next
  case (Cons c t)
  show ?thesis
  proof (cases "atom_ok ci a c")
    case True
    let ?K = "length (takeWhile (atom_ok ci a) t)"
    have "rmatch ci (Plus (Atom a)) (c # t) cs =
        map (\<lambda>(m, cs2). (Suc m, cs2)) (rmatch ci (Star (Atom a)) t cs)"
      by (simp add: Plus_def True)
    also have "\<dots> = map (\<lambda>k. (k, cs)) (map Suc (rev [0..<Suc ?K]))"
      by (simp add: rmatch_Star_atom comp_def del: upt_Suc)
    also have "map Suc (rev [0..<Suc ?K]) = rev [Suc 0..<Suc (Suc ?K)]"
      by (simp only: rev_map[symmetric] map_Suc_upt)
    finally show ?thesis
      using True Cons by (simp del: upt_Suc)
  next
    case False
    then show ?thesis using Cons by (simp add: Plus_def)
  qed
qed

lemma concat_map_rev_upt:
  assumes "\<And>k. k < K \<Longrightarrow> f k = []"
  shows "concat (map f (rev [0..<Suc K])) = f K"
proof -
  have "concat (map f (rev [0..<K])) = []"
    using assms by simp
  then show ?thesis
    by simp
qed

lemma hd_drop_takeWhile:
  assumes "k < length (takeWhile P s)"
  shows "drop k s \<noteq> [] \<and> P (hd (drop k s))"
proof -
  have k: "k < length s"
    using assms length_takeWhile_le[of P s] by simp
  then have "hd (drop k s) = s ! k"
    by (simp add: hd_drop_conv_nth)
  also have "\<dots> = takeWhile P s ! k"
    using assms by (simp add: takeWhile_nth)
  finally have "hd (drop k s) = takeWhile P s ! k" .
  moreover have "takeWhile P s ! k \<in> set (takeWhile P s)"
    using assms by simp
  then have "P (takeWhile P s ! k)"
    by (rule set_takeWhileD[THEN conjunct2])
  ultimately show ?thesis
    using k by simp
qed

lemma rmatch_Seq_spaces:
  assumes "\<And>t c. t \<noteq> [] \<Longrightarrow> is_space (hd t) \<Longrightarrow> rmatch ci r t c = []"
  shows "rmatch ci (Seq (Star (Atom Space)) r) s cs =
     map (\<lambda>(m, c). (length (takeWhile is_space s) + m, c))
       (rmatch ci r (dropWhile is_space s) cs)"
proof -
  let ?K = "length (takeWhile is_space s)"
  let ?f = "\<lambda>k. map (\<lambda>(m, c). (k + m, c)) (rmatch ci r (drop k s) cs)"
  have a: "atom_ok ci Space = is_space"
    by (rule ext) simp
  have "rmatch ci (Seq (Star (Atom Space)) r) s cs = concat (map ?f (rev [0..<Suc ?K]))"
    by (simp add: rmatch_Star_atom a comp_def del: upt_Suc)
  also have "\<dots> = ?f ?K"
  proof (rule concat_map_rev_upt)
    fix k assume "k < ?K"
    from hd_drop_takeWhile[OF this] show "?f k = []"
      using assms by simp
  qed
  also have "drop ?K s = dropWhile is_space s"
    by (rule dropWhile_eq_drop[symmetric])
  finally show ?thesis .
qed

lemma rmatch_lit:
  "rmatch ci (lit w) s cs =
     (if list_all2 (\<lambda>p c. atom_ok ci (Chr p) c) w (take (length w) s)
      then [(length w, cs)] else [])"
proof (induction w arbitrary: s)
  case Nil
  show ?case by (simp add: lit_def)
next
  case (Cons p w)
  have l: "lit (p # w) = Seq (Atom (Chr p)) (lit w)"
    by (simp add: lit_def)
  show ?case
  proof (cases s)
    case Nil
    then show ?thesis by (simp add: l)
  next
    case (Cons c t)
    then show ?thesis
      by (simp add: l Cons.IH del: atom_ok.simps)
  qed
qed

lemma rmatch_Seq_lit:
  "rmatch ci (Seq (lit w) r) s cs =
     (if list_all2 (\<lambda>p c. atom_ok ci (Chr p) c) w (take (length w) s)
      then map (\<lambda>(m, c). (length w + m, c)) (rmatch ci r (drop (length w) s) cs) else [])"
  by (simp add: rmatch_lit)

section \<open>The prompt of processLearningResponse\<close>

lemma show_int_3: "show_int 3 = ''3''"
  by code_simp

lemma template_nonempty:
  "hint_template s c t x \<noteq> []" "clarification_template s c t x \<noteq> []"
  "encouragement_template s c t x \<noteq> []" "default_template s c t x \<noteq> []"
  by (simp_all add: hint_template_def clarification_template_def encouragement_template_def
      default_template_def)

lemma template_for_nonempty: "template_for rt s c t x \<noteq> []"
  by (simp add: template_for_def template_nonempty)

lemma template_for_cases:
  "template_for rt \<in>
     {hint_template, clarification_template, encouragement_template, default_template}"
  by (simp add: template_for_def)

lemma final_step_addendum_nonempty: "final_step_addendum \<noteq> []"
  by (simp add: final_step_addendum_def)

lemma hint_not_default: "hint_template s c t x \<noteq> default_template s c t x"
  by (simp add: hint_template_def default_template_def)

lemma systemPrompt_eq:
  "systemPrompt b =
     template_for (case response_type b of None \<Rightarrow> ''hint'' | Some t \<Rightarrow> t)
       (interp (subject b)) (interp_num (current_step b)) (interp_num (total_steps b))
       (interp (context' b)) @
     (if js_ge (current_step b) (total_steps b) then final_step_addendum else [])"
  by (simp add: systemPrompt_def isFinalStep_def Let_def)

lemma process_calls:
  "truthy (message b) \<Longrightarrow> truthy (subject b) \<Longrightarrow>
     snd (processLearningResponse env b) = [process_request b]"
  by (simp add: processLearningResponse_def split: sum.splits)

lemma process_system_content:
  "system_content (process_request b) = Some (Plain (systemPrompt b))"
  by (simp add: system_content_def process_request_def)

lemma process_ok:
  "truthy (message b) \<Longrightarrow> truthy (subject b) \<Longrightarrow>
   createChatCompletion env (process_request b) = Inr reply \<Longrightarrow> choices reply = m # ms \<Longrightarrow>
   fst (processLearningResponse env b) =
     \<lparr>status = 200,
      body = [(''success'', JBool True), (''next_step'', jsval_of (content m)),
              (''is_final_step'', JBool (isFinalStep b)),
              (''context'', JStr (updatedContext b (content m)))]\<rparr>"
  by (simp add: processLearningResponse_def first_message_def)

text \<open>
  C2. In \<open>processLearningResponse\<close> the system prompt sent to the provider is the selected
  template followed by the final-step addendum exactly when \<open>current_step >= total_steps\<close>,
  whichever of the four templates was selected; for numbers the comparison is that of the
  integers, so the addendum is there when the two are equal and not when the current step
  is smaller; and the flag \<open>is_final_step\<close> of the response is the same comparison.
\<close>

theorem final_step_addendum_appended:
  assumes "truthy (message b)" and "truthy (subject b)"
    and "createChatCompletion env (process_request b) = Inr reply"
    and "choices reply = m # ms"
    and "base = template_for (case response_type b of None \<Rightarrow> ''hint'' | Some t \<Rightarrow> t)
           (interp (subject b)) (interp_num (current_step b)) (interp_num (total_steps b))
           (interp (context' b))"
  shows "snd (processLearningResponse env b) = [process_request b] \<and>
    system_content (process_request b) =
      Some (Plain (if js_ge (current_step b) (total_steps b)
                   then base @ final_step_addendum else base)) \<and>
    field (processLearningResponse env b) ''is_final_step'' =
      Some (JBool (js_ge (current_step b) (total_steps b))) \<and>
    (\<forall>c t. current_step b = Some c \<and> total_steps b = Some t \<longrightarrow>
       (js_ge (current_step b) (total_steps b) \<longleftrightarrow> t \<le> c)) \<and>
    final_step_addendum \<noteq> [] \<and>
    template_for (case response_type b of None \<Rightarrow> ''hint'' | Some t \<Rightarrow> t) \<in>
      {hint_template, clarification_template, encouragement_template, default_template}"
proof -
  have "field (processLearningResponse env b) ''is_final_step'' =
      Some (JBool (js_ge (current_step b) (total_steps b)))"
    using process_ok[OF assms(1-4)] by (simp add: field_def isFinalStep_def)
  moreover have "system_content (process_request b) =
      Some (Plain (if js_ge (current_step b) (total_steps b)
                   then base @ final_step_addendum else base))"
    by (simp add: process_system_content systemPrompt_eq assms(5))
  moreover have "\<forall>c t. current_step b = Some c \<and> total_steps b = Some t \<longrightarrow>
       (js_ge (current_step b) (total_steps b) \<longleftrightarrow> t \<le> c)"
    by (simp add: js_ge_def)
  ultimately show ?thesis
    using process_calls[OF assms(1,2)] final_step_addendum_nonempty template_for_cases
    by blast
qed

theorem final_step_addendum_appended_witness:
  "snd (processLearningResponse (env_replying (\<lambda>_. Inr (reply_with ''Well done!''))) example_turn) =
     [process_request example_turn] \<and>
   system_content (process_request example_turn) =
     Some (Plain (default_template ''math'' ''3'' ''3'' ''Adding two numbers'' @
                  final_step_addendum)) \<and>
   field (processLearningResponse (env_replying (\<lambda>_. Inr (reply_with ''Well done!''))) example_turn)
     ''is_final_step'' = Some (JBool True)"
  using final_step_addendum_appended[of example_turn
      "env_replying (\<lambda>_. Inr (reply_with ''Well done!''))" "reply_with ''Well done!''"
      "\<lparr>function_call = None, content = Some ''Well done!''\<rparr>" "[]"
      "default_template ''math'' ''3'' ''3'' ''Adding two numbers''"]
  by (simp add: example_turn_def env_replying_def reply_with_def truthy_def template_for_def
      interp_def interp_num_def show_int_3 js_ge_def template_nonempty
      final_step_addendum_nonempty hint_not_default)

text \<open>
  C3. A response type other than \<open>hint\<close>, \<open>clarification\<close> and \<open>encouragement\<close> selects
  the default template; the system prompt is never empty; and building it raises nothing:
  when the provider answers with at least one choice, the request is sent with that prompt
  and the response has status 200.
\<close>

theorem unrecognised_type_selects_default:
  "(response_type b = Some rt \<and> rt \<notin> {''hint'', ''clarification'', ''encouragement''} \<longrightarrow>
      systemPrompt b =
        default_template (interp (subject b)) (interp_num (current_step b))
          (interp_num (total_steps b)) (interp (context' b)) @
        (if isFinalStep b then final_step_addendum else [])) \<and>
   systemPrompt b \<noteq> [] \<and>
   (truthy (message b) \<and> truthy (subject b) \<and>
    createChatCompletion env (process_request b) = Inr reply \<and> choices reply \<noteq> [] \<longrightarrow>
      status (fst (processLearningResponse env b)) = 200 \<and>
      snd (processLearningResponse env b) = [process_request b] \<and>
      system_content (process_request b) = Some (Plain (systemPrompt b)))"
proof (intro conjI impI)
  assume "response_type b = Some rt \<and> rt \<notin> {''hint'', ''clarification'', ''encouragement''}"
  then show "systemPrompt b =
        default_template (interp (subject b)) (interp_num (current_step b))
          (interp_num (total_steps b)) (interp (context' b)) @
        (if isFinalStep b then final_step_addendum else [])"
    by (simp add: systemPrompt_def Let_def template_for_def)
next
  show "systemPrompt b \<noteq> []"
    by (simp add: systemPrompt_eq template_for_nonempty)
next
  assume a: "truthy (message b) \<and> truthy (subject b) \<and>
    createChatCompletion env (process_request b) = Inr reply \<and> choices reply \<noteq> []"
  then obtain m ms where "choices reply = m # ms"
    by (cases "choices reply") auto
  with a show "status (fst (processLearningResponse env b)) = 200"
    by (simp add: process_ok)
  from a show "snd (processLearningResponse env b) = [process_request b]"
    by (simp add: process_calls)
  show "system_content (process_request b) = Some (Plain (systemPrompt b))"
    by (rule process_system_content)
qed

theorem unrecognised_type_selects_default_witness:
  "systemPrompt example_turn =
     default_template ''math'' ''3'' ''3'' ''Adding two numbers'' @ final_step_addendum \<and>
   systemPrompt example_turn \<noteq> [] \<and>
   status (fst (processLearningResponse (env_replying (\<lambda>_. Inr (reply_with ''Go on.'')))
                  example_turn)) = 200"
  using unrecognised_type_selects_default[of example_turn "''quiz''"
      "env_replying (\<lambda>_. Inr (reply_with ''Go on.''))" "reply_with ''Go on.''"]
  by (simp add: example_turn_def env_replying_def reply_with_def truthy_def isFinalStep_def
      interp_def interp_num_def show_int_3 js_ge_def template_nonempty
      final_step_addendum_nonempty hint_not_default)

lemma process_request_hint:
  "response_type b = None \<Longrightarrow> process_request (b\<lparr>response_type := Some ''hint''\<rparr>) = process_request b"
  by (simp add: process_request_def systemPrompt_def isFinalStep_def)

lemma process_hint_same:
  "response_type b = None \<Longrightarrow>
   processLearningResponse env (b\<lparr>response_type := Some ''hint''\<rparr>) = processLearningResponse env b"
  by (simp add: processLearningResponse_def process_request_hint updatedContext_def
      isFinalStep_def cong: sum.case_cong)

lemma process_request_system_inject:
  "process_request b = process_request c \<Longrightarrow> systemPrompt b = systemPrompt c"
  by (simp add: process_request_def)

text \<open>
  C10. A request to \<open>/process\<close> without the field \<open>response_type\<close> is answered from the
  hint template and not from the default template, which a type that is present and
  unrecognised selects: the controller answers exactly as it does for the type \<open>hint\<close>;
  when the required fields are there, it sends one request to the provider, whose system
  prompt is the hint template, followed by the addendum on the final step, and which is
  not the request that an unrecognised type makes it send; and when the provider answers,
  the response has status 200.
\<close>

theorem omitted_type_selects_hint:
  assumes "response_type b = None"
  shows "systemPrompt b =
      hint_template (interp (subject b)) (interp_num (current_step b))
        (interp_num (total_steps b)) (interp (context' b)) @
      (if isFinalStep b then final_step_addendum else []) \<and>
    systemPrompt b = systemPrompt (b\<lparr>response_type := Some ''hint''\<rparr>) \<and>
    (rt \<notin> {''hint'', ''clarification'', ''encouragement''} \<longrightarrow>
       systemPrompt b \<noteq> systemPrompt (b\<lparr>response_type := Some rt\<rparr>)) \<and>
    system_content (process_request b) = Some (Plain (systemPrompt b)) \<and>
    processLearningResponse env b =
      processLearningResponse env (b\<lparr>response_type := Some ''hint''\<rparr>) \<and>
    (truthy (message b) \<and> truthy (subject b) \<longrightarrow>
       snd (processLearningResponse env b) = [process_request b] \<and>
       map system_content (snd (processLearningResponse env b)) =
         [Some (Plain (hint_template (interp (subject b)) (interp_num (current_step b))
                         (interp_num (total_steps b)) (interp (context' b)) @
                       (if isFinalStep b then final_step_addendum else [])))] \<and>
       (rt \<notin> {''hint'', ''clarification'', ''encouragement''} \<longrightarrow>
          snd (processLearningResponse env b) \<noteq>
            snd (processLearningResponse env (b\<lparr>response_type := Some rt\<rparr>))) \<and>
       (createChatCompletion env (process_request b) = Inr reply \<and> choices reply \<noteq> [] \<longrightarrow>
          status (fst (processLearningResponse env b)) = 200))"
proof -
  have p: "systemPrompt b =
      hint_template (interp (subject b)) (interp_num (current_step b))
        (interp_num (total_steps b)) (interp (context' b)) @
      (if isFinalStep b then final_step_addendum else [])"
    using assms by (simp add: systemPrompt_def Let_def template_for_def)
  have h: "systemPrompt b = systemPrompt (b\<lparr>response_type := Some ''hint''\<rparr>)"
    using assms by (simp add: systemPrompt_def isFinalStep_def)
  have d: "systemPrompt b \<noteq> systemPrompt (b\<lparr>response_type := Some rt\<rparr>)"
    if "rt \<notin> {''hint'', ''clarification'', ''encouragement''}"
    using assms that hint_not_default
    by (simp add: systemPrompt_def isFinalStep_def Let_def template_for_def)
  have same: "processLearningResponse env b =
      processLearningResponse env (b\<lparr>response_type := Some ''hint''\<rparr>)"
    using process_hint_same[OF assms] by simp
  have sent: "snd (processLearningResponse env b) = [process_request b]"
    if "truthy (message b) \<and> truthy (subject b)"
    using that by (simp add: process_calls)
  have content: "map system_content (snd (processLearningResponse env b)) =
         [Some (Plain (hint_template (interp (subject b)) (interp_num (current_step b))
                         (interp_num (total_steps b)) (interp (context' b)) @
                       (if isFinalStep b then final_step_addendum else [])))]"
    if "truthy (message b) \<and> truthy (subject b)"
    using sent[OF that] p by (simp add: process_system_content)
  have other: "snd (processLearningResponse env b) \<noteq>
            snd (processLearningResponse env (b\<lparr>response_type := Some rt\<rparr>))"
    if t: "truthy (message b) \<and> truthy (subject b)"
      and rt: "rt \<notin> {''hint'', ''clarification'', ''encouragement''}"
  proof
    assume e: "snd (processLearningResponse env b) =
            snd (processLearningResponse env (b\<lparr>response_type := Some rt\<rparr>))"
    have "snd (processLearningResponse env (b\<lparr>response_type := Some rt\<rparr>)) =
        [process_request (b\<lparr>response_type := Some rt\<rparr>)]"
      using t by (intro process_calls) simp_all
    with e sent[OF t] have "process_request b = process_request (b\<lparr>response_type := Some rt\<rparr>)"
      by simp
    then have "systemPrompt b = systemPrompt (b\<lparr>response_type := Some rt\<rparr>)"
      by (rule process_request_system_inject)
    with d[OF rt] show False
      by simp
  qed
  have ok: "status (fst (processLearningResponse env b)) = 200"
    if t: "truthy (message b) \<and> truthy (subject b)"
      and r: "createChatCompletion env (process_request b) = Inr reply \<and> choices reply \<noteq> []"
  proof -
    from r obtain m ms where "choices reply = m # ms"
      by (cases "choices reply") auto
    with t r show ?thesis
      by (simp add: process_ok)
  qed
  from p h d same sent content other ok show ?thesis
    by (simp add: process_system_content)
qed

theorem omitted_type_selects_hint_witness:
  "snd (processLearningResponse (env_replying (\<lambda>_. Inr (reply_with ''Try adding the ones first.'')))
          (example_turn\<lparr>response_type := None\<rparr>)) =
     [process_request (example_turn\<lparr>response_type := None\<rparr>)] \<and>
   map system_content
     (snd (processLearningResponse
             (env_replying (\<lambda>_. Inr (reply_with ''Try adding the ones first.'')))
             (example_turn\<lparr>response_type := None\<rparr>))) =
     [Some (Plain (hint_template ''math'' ''3'' ''3'' ''Adding two numbers'' @
                   final_step_addendum))] \<and>
   snd (processLearningResponse (env_replying (\<lambda>_. Inr (reply_with ''Try adding the ones first.'')))
          (example_turn\<lparr>response_type := None\<rparr>)) \<noteq>
     snd (processLearningResponse
            (env_replying (\<lambda>_. Inr (reply_with ''Try adding the ones first.''))) example_turn) \<and>
   status (fst (processLearningResponse
                  (env_replying (\<lambda>_. Inr (reply_with ''Try adding the ones first.'')))
                  (example_turn\<lparr>response_type := None\<rparr>))) = 200 \<and>
   systemPrompt (example_turn\<lparr>response_type := None\<rparr>) =
     hint_template ''math'' ''3'' ''3'' ''Adding two numbers'' @ final_step_addendum \<and>
   systemPrompt (example_turn\<lparr>response_type := None\<rparr>) \<noteq> systemPrompt example_turn"
proof -
  let ?b = "example_turn\<lparr>response_type := None\<rparr>"
  let ?env = "env_replying (\<lambda>_. Inr (reply_with ''Try adding the ones first.''))"
  have a: "response_type ?b = None"
    by simp
  have q: "''quiz'' \<notin> {''hint'', ''clarification'', ''encouragement''}"
    by simp
  have c: "?b\<lparr>response_type := Some ''quiz''\<rparr> = example_turn"
    by (simp add: example_turn_def)
  have t: "truthy (message ?b) \<and> truthy (subject ?b)"
    by (simp add: example_turn_def truthy_def)
  have r: "createChatCompletion ?env (process_request ?b) =
        Inr (reply_with ''Try adding the ones first.'') \<and>
      choices (reply_with ''Try adding the ones first.'') \<noteq> []"
    by (simp add: env_replying_def reply_with_def)
  have e: "hint_template (interp (subject ?b)) (interp_num (current_step ?b))
        (interp_num (total_steps ?b)) (interp (context' ?b)) @
      (if isFinalStep ?b then final_step_addendum else []) =
      hint_template ''math'' ''3'' ''3'' ''Adding two numbers'' @ final_step_addendum"
    by (simp add: example_turn_def isFinalStep_def interp_def interp_num_def show_int_3
        js_ge_def)
  note t0 = omitted_type_selects_hint[OF a, of "''quiz''" ?env
      "reply_with ''Try adding the ones first.''"]
  from t0 have 1: "systemPrompt ?b =
      hint_template (interp (subject ?b)) (interp_num (current_step ?b))
        (interp_num (total_steps ?b)) (interp (context' ?b)) @
      (if isFinalStep ?b then final_step_addendum else [])"
    by blast
  from t0 q have "systemPrompt ?b \<noteq> systemPrompt (?b\<lparr>response_type := Some ''quiz''\<rparr>)"
    by blast
  then have 2: "systemPrompt ?b \<noteq> systemPrompt example_turn"
    unfolding c .
  from t0 t have 3: "snd (processLearningResponse ?env ?b) = [process_request ?b]"
    by blast
  from t0 t have 4: "map system_content (snd (processLearningResponse ?env ?b)) =
         [Some (Plain (hint_template (interp (subject ?b)) (interp_num (current_step ?b))
                         (interp_num (total_steps ?b)) (interp (context' ?b)) @
                       (if isFinalStep ?b then final_step_addendum else [])))]"
    by blast
  from t0 t q have "snd (processLearningResponse ?env ?b) \<noteq>
      snd (processLearningResponse ?env (?b\<lparr>response_type := Some ''quiz''\<rparr>))"
    by blast
  then have 5: "snd (processLearningResponse ?env ?b) \<noteq>
      snd (processLearningResponse ?env example_turn)"
    unfolding c .
  from t0 t r have 6: "status (fst (processLearningResponse ?env ?b)) = 200"
    by blast
  from 1 2 3 4 5 6 show ?thesis
    unfolding e by blast
qed

section \<open>Requests without a required field\<close>

text \<open>
  C9. A request to \<open>/analyze\<close> without \<open>studentResponse\<close> or without \<open>context\<close>, and a
  request to \<open>/process\<close> without \<open>message\<close> or without \<open>subject\<close>, is answered with status
  400 and \<open>success: false\<close>, and no request is sent to the provider.
\<close>

theorem missing_field_is_rejected:
  "(studentResponse a = None \<or> analyze_body.context' a = None \<longrightarrow>
      analyzeStudentResponse env a =
        (\<lparr>status = 400,
          body = [(''success'', JBool False),
                  (''message'', JStr ''Student response and context are required'')]\<rparr>, [])) \<and>
   (message p = None \<or> subject p = None \<longrightarrow>
      processLearningResponse env p =
        (\<lparr>status = 400,
          body = [(''success'', JBool False),
                  (''message'', JStr ''Student message and subject are required'')]\<rparr>, []))"
  by (auto simp: analyzeStudentResponse_def processLearningResponse_def truthy_def)

theorem missing_field_is_rejected_witness:
  "analyzeStudentResponse (env_replying (\<lambda>_. Inr (reply_with ''unused'')))
     \<lparr>studentResponse = Some ''12'', context' = None, subject = Some ''math'',
      currentStep = Some 1, totalSteps = Some 3\<rparr> =
     (\<lparr>status = 400,
       body = [(''success'', JBool False),
               (''message'', JStr ''Student response and context are required'')]\<rparr>, []) \<and>
   processLearningResponse (env_replying (\<lambda>_. Inr (reply_with ''unused'')))
     (example_turn\<lparr>message := None\<rparr>) =
     (\<lparr>status = 400,
       body = [(''success'', JBool False),
               (''message'', JStr ''Student message and subject are required'')]\<rparr>, [])"
  using missing_field_is_rejected[of
      "\<lparr>studentResponse = Some ''12'', context' = None, subject = Some ''math'',
        currentStep = Some 1, totalSteps = Some 3\<rparr>"
      "env_replying (\<lambda>_. Inr (reply_with ''unused''))" "example_turn\<lparr>message := None\<rparr>"]
  by (simp add: example_turn_def)

section \<open>Tutorial-mode detection\<close>

lemma analyzeImage_ok:
  assumes "image_url b = Some url" and "url \<noteq> []"
    and "createChatCompletion env (vision_request url) = Inr reply"
    and "choices reply = m # ms"
    and "steps_for env (content m) = Inr steps"
    and "createAudio env \<lparr>audio_model = ''tts-1'', voice = ''alloy'', input = content m\<rparr> =
           Inr audio"
    and "save_audio env (''response-'' @ show_nat (date_now env) @ ''.mp3'') audio = None"
  shows "analyzeImage env b =
     \<lparr>status = 200,
      body = [(''success'', JBool True),
              (''response'', jsval_of (content m)),
              (''audio_url'',
                 JStr (base_url env @ ''/uploads/audio/'' @
                       ''response-'' @ show_nat (date_now env) @ ''.mp3'')),
              (''should_enter_tutorial_mode'',
                 JBool (shouldEnterTutorialMode (interp_null (content m)))),
              (''learning_context'', jsval_of (content m)),
              (''learning_steps'', JArr (map JStr steps))]\<rparr>"
  using assms by (simp add: analyzeImage_def first_message_def Let_def)

lemma steps_for_educational:
  assumes "shouldEnterTutorialMode (interp_null analysis)"
    and "createChatCompletion env (steps_request (interp_null analysis)) = Inr reply"
    and "choices reply = m # ms" and "content m = Some stepsText"
  shows "steps_for env analysis = Inr (learningSteps stepsText)"
  using assms by (simp add: steps_for_def first_message_def)

lemma steps_for_other:
  "\<not> shouldEnterTutorialMode (interp_null analysis) \<Longrightarrow> steps_for env analysis = Inr []"
  by (simp add: steps_for_def)

lemma env_replying_simps:
  "createChatCompletion (env_replying provider) = provider"
  "createAudio (env_replying provider) rq = Inr ''mp3''"
  "save_audio (env_replying provider) file audio = None"
  by (simp_all add: env_replying_def)

lemma ci_equal_refl: "ci_equal w w"
  by (simp add: ci_equal_def)

lemma contains_ci_mid: "ci_equal m w \<Longrightarrow> contains_ci w (pre @ m @ post)"
  unfolding contains_ci_def by blast

lemma shouldEnterTutorialMode_iff:
  "shouldEnterTutorialMode s \<longleftrightarrow> (\<exists>w\<in>set educational_phrases. contains_ci w s)"
proof -
  have "contains_ci ''reading'' s \<Longrightarrow> contains_ci ''read'' s"
    using contains_ci_append_left[of "''read''" "''ing''" s] by simp
  then show ?thesis
    unfolding shouldEnterTutorialMode_def educationalContentPatterns_def educational_phrases_def
    by (auto simp: regex_test_lit regex_test_read regex_test_writ)
qed

text \<open>
  C6, as amended. The detection of \<open>analyzeImage\<close> is true exactly when the analysis
  contains, in any case, one of the phrases \<open>math problem\<close>, \<open>equation\<close>,
  \<open>science question\<close>, \<open>experiment\<close>, \<open>read\<close> (so also \<open>reading\<close>), \<open>write\<close>,
  \<open>writing\<close>, \<open>homework\<close>, \<open>problem to solve\<close> or \<open>steps to follow\<close>. The stem
  \<open>writ\<close> alone is not one of them: the sixth pattern asks for \<open>ing\<close> or \<open>e\<close> after it.
  A text that contains \<open>This is a math problem\<close> is detected, and the text
  \<open>Here is a cute drawing of a cat\<close> is not. When the provider, the speech synthesis and
  the file system succeed, the controller answers 200 and the field
  \<open>should_enter_tutorial_mode\<close> of its response is this detection on the analysis that the
  provider returned.
\<close>

theorem tutorial_mode_detection:
  "(shouldEnterTutorialMode s \<longleftrightarrow> (\<exists>w\<in>set educational_phrases. contains_ci w s)) \<and>
   shouldEnterTutorialMode (pre @ ''This is a math problem'' @ post) \<and>
   \<not> shouldEnterTutorialMode ''Here is a cute drawing of a cat'' \<and>
   (image_url b = Some url \<and> url \<noteq> [] \<and>
    createChatCompletion env (vision_request url) = Inr reply \<and> choices reply = m # ms \<and>
    steps_for env (content m) = Inr steps \<and>
    createAudio env \<lparr>audio_model = ''tts-1'', voice = ''alloy'', input = content m\<rparr> =
      Inr audio \<and>
    save_audio env (''response-'' @ show_nat (date_now env) @ ''.mp3'') audio = None \<longrightarrow>
      status (analyzeImage env b) = 200 \<and>
      map_of (body (analyzeImage env b)) ''should_enter_tutorial_mode'' =
        Some (JBool (shouldEnterTutorialMode (interp_null (content m)))))"
proof (intro conjI impI)
  show "shouldEnterTutorialMode s \<longleftrightarrow> (\<exists>w\<in>set educational_phrases. contains_ci w s)"
    by (rule shouldEnterTutorialMode_iff)
  have "contains_ci ''math problem'' ((pre @ ''This is a '') @ ''math problem'' @ post)"
    by (rule contains_ci_mid[OF ci_equal_refl])
  then show "shouldEnterTutorialMode (pre @ ''This is a math problem'' @ post)"
    unfolding shouldEnterTutorialMode_iff educational_phrases_def by simp
  show "\<not> shouldEnterTutorialMode ''Here is a cute drawing of a cat''"
    by code_simp
next
  assume a: "image_url b = Some url \<and> url \<noteq> [] \<and>
    createChatCompletion env (vision_request url) = Inr reply \<and> choices reply = m # ms \<and>
    steps_for env (content m) = Inr steps \<and>
    createAudio env \<lparr>audio_model = ''tts-1'', voice = ''alloy'', input = content m\<rparr> =
      Inr audio \<and>
    save_audio env (''response-'' @ show_nat (date_now env) @ ''.mp3'') audio = None"
  then have h: "image_url b = Some url" "url \<noteq> []"
    "createChatCompletion env (vision_request url) = Inr reply" "choices reply = m # ms"
    "steps_for env (content m) = Inr steps"
    "createAudio env \<lparr>audio_model = ''tts-1'', voice = ''alloy'', input = content m\<rparr> =
      Inr audio"
    "save_audio env (''response-'' @ show_nat (date_now env) @ ''.mp3'') audio = None"
    by blast+
  have r: "analyzeImage env b =
     \<lparr>status = 200,
      body = [(''success'', JBool True),
              (''response'', jsval_of (content m)),
              (''audio_url'',
                 JStr (base_url env @ ''/uploads/audio/'' @
                       ''response-'' @ show_nat (date_now env) @ ''.mp3'')),
              (''should_enter_tutorial_mode'',
                 JBool (shouldEnterTutorialMode (interp_null (content m)))),
              (''learning_context'', jsval_of (content m)),
              (''learning_steps'', JArr (map JStr steps))]\<rparr>"
    by (rule analyzeImage_ok[OF h])
  show "status (analyzeImage env b) = 200"
    by (simp add: r)
  show "map_of (body (analyzeImage env b)) ''should_enter_tutorial_mode'' =
        Some (JBool (shouldEnterTutorialMode (interp_null (content m))))"
    by (simp add: r)
qed

theorem tutorial_mode_detection_witness:
  "shouldEnterTutorialMode ''Solve this Equation'' \<and>
   status (analyzeImage (env_replying (\<lambda>_. Inr (reply_with ''Here is a cute drawing of a cat'')))
             example_image) = 200 \<and>
   map_of (body (analyzeImage
                   (env_replying (\<lambda>_. Inr (reply_with ''Here is a cute drawing of a cat'')))
                   example_image)) ''should_enter_tutorial_mode'' = Some (JBool False)"
proof -
  let ?env = "env_replying (\<lambda>_. Inr (reply_with ''Here is a cute drawing of a cat''))"
  let ?m = "\<lparr>function_call = None, content = Some ''Here is a cute drawing of a cat''\<rparr>"
  note t = tutorial_mode_detection[of "''Solve this Equation''" "[]" "[]" example_image
      "''http://localhost:3000/uploads/images/1.png''" ?env
      "reply_with ''Here is a cute drawing of a cat''" ?m "[]" "[]" "''mp3''"]
  have "ci_equal ''Equation'' ''equation''"
    by (simp add: ci_equal_def canonicalize_def upper_of_def)
  from contains_ci_mid[OF this, of "''Solve this ''" "''''"]
  have "\<exists>w\<in>set educational_phrases. contains_ci w ''Solve this Equation''"
    by (simp add: educational_phrases_def)
  with t have 1: "shouldEnterTutorialMode ''Solve this Equation''"
    by blast
  from t have n: "\<not> shouldEnterTutorialMode ''Here is a cute drawing of a cat''"
    by blast
  then have s: "steps_for ?env (content ?m) = Inr []"
    by (intro steps_for_other) (simp add: interp_null_def)
  have h: "image_url example_image = Some ''http://localhost:3000/uploads/images/1.png'' \<and>
    ''http://localhost:3000/uploads/images/1.png'' \<noteq> [] \<and>
    createChatCompletion ?env (vision_request ''http://localhost:3000/uploads/images/1.png'') =
      Inr (reply_with ''Here is a cute drawing of a cat'') \<and>
    choices (reply_with ''Here is a cute drawing of a cat'') = ?m # [] \<and>
    steps_for ?env (content ?m) = Inr [] \<and>
    createAudio ?env \<lparr>audio_model = ''tts-1'', voice = ''alloy'', input = content ?m\<rparr> =
      Inr ''mp3'' \<and>
    save_audio ?env (''response-'' @ show_nat (date_now ?env) @ ''.mp3'') ''mp3'' = None"
    using s by (simp add: env_replying_simps example_image_def reply_with_def)
  from t h have "status (analyzeImage ?env example_image) = 200 \<and>
      map_of (body (analyzeImage ?env example_image)) ''should_enter_tutorial_mode'' =
        Some (JBool (shouldEnterTutorialMode (interp_null (content ?m))))"
    by blast
  with n 1 show ?thesis
    by (simp add: interp_null_def)
qed

text \<open>
  The claim as it was stated lists \<open>writ\<close> among the phrases; a text with that word and
  none of the others is not detected.
\<close>

theorem bare_writ_counterexample:
  "contains_ci ''writ'' ''a writ of summons'' \<and> \<not> shouldEnterTutorialMode ''a writ of summons''"
proof
  show "contains_ci ''writ'' ''a writ of summons''"
    using contains_ci_mid[OF ci_equal_refl, where pre = "''a ''" and m = "''writ''"
        and post = "'' of summons''"] by simp
  show "\<not> shouldEnterTutorialMode ''a writ of summons''"
    by code_simp
qed

section \<open>Learning steps\<close>

lemma sem_re_step: "sem False re_step m cs cs' \<longleftrightarrow> cs' = cs \<and> ordinal_text m"
proof -
  have nl: "(\<forall>c\<in>set rest. CHR 0x0A \<noteq> c) \<longleftrightarrow> CHR 0x0A \<notin> set rest" for rest
    by auto
  show ?thesis
    unfolding re_step_def sem_Seq_iff sem_Plus_atom sem_Atom_iff ordinal_text_def
    by (simp add: nl) blast
qed

lemma regex_test_re_step: "regex_test False re_step s \<longleftrightarrow> occurs ordinal_text s"
  by (simp add: regex_test_iff sem_re_step occurs_def)


lemma ordinal_text_nonempty: "ordinal_text m \<Longrightarrow> m \<noteq> []"
  by (auto simp: ordinal_text_def)

lemma match_all_re_step:
  "successive ordinal_text s (match_all False re_step s)"
  using match_all_successive[of False re_step s]
  by (simp add: sem_re_step ordinal_text_nonempty)

lemma successive_all: "successive P s ms \<Longrightarrow> \<forall>m\<in>set ms. P m"
  by (induction rule: successive.induct) auto

lemma dropWhile_all_iff:
  "(\<forall>c\<in>set (dropWhile P x). P c) \<longleftrightarrow> dropWhile P x = []"
proof
  assume a: "\<forall>c\<in>set (dropWhile P x). P c"
  show "dropWhile P x = []"
  proof (rule ccontr)
    assume n: "dropWhile P x \<noteq> []"
    then have "\<not> P (hd (dropWhile P x))"
      by (rule hd_dropWhile)
    moreover have "hd (dropWhile P x) \<in> set (dropWhile P x)"
      using n by (rule hd_in_set)
    ultimately show False
      using a by blast
  qed
next
  assume "dropWhile P x = []"
  then show "\<forall>c\<in>set (dropWhile P x). P c"
    by (simp del: dropWhile_eq_Nil_conv)
qed

lemma trim_eq_Nil_iff: "trim x = [] \<longleftrightarrow> (\<forall>c\<in>set x. is_space c)"
proof -
  have "trim x = [] \<longleftrightarrow> (\<forall>c\<in>set (dropWhile is_space x). is_space c)"
    by (simp add: trim_def)
  also have "\<dots> \<longleftrightarrow> dropWhile is_space x = []"
    by (rule dropWhile_all_iff)
  also have "\<dots> \<longleftrightarrow> (\<forall>c\<in>set x. is_space c)"
    by (rule dropWhile_eq_Nil_conv)
  finally show ?thesis .
qed

lemma trim_is_trimmed: "is_trimmed (trim x)"
proof -
  define y where "y = dropWhile is_space x"
  define z where "z = rev (dropWhile is_space (rev y))"
  have tz: "trim x = z"
    by (simp add: trim_def y_def z_def)
  have "rev y = takeWhile is_space (rev y) @ dropWhile is_space (rev y)"
    by simp
  then have "y = z @ rev (takeWhile is_space (rev y))"
    unfolding z_def by (metis rev_append rev_rev_ident)
  then obtain t where yz: "y = z @ t"
    by blast
  show ?thesis
  proof (cases "z = []")
    case True
    then show ?thesis by (simp add: tz is_trimmed_def)
  next
    case False
    then have "y \<noteq> []" using yz by auto
    then have "\<not> is_space (hd y)"
      unfolding y_def using hd_dropWhile by blast
    moreover have "hd z = hd y"
      using False yz by (cases z) auto
    moreover have "dropWhile is_space (rev y) \<noteq> []"
      using False z_def by auto
    then have "\<not> is_space (hd (dropWhile is_space (rev y)))"
      using hd_dropWhile by blast
    then have "\<not> is_space (last z)"
      using False unfolding z_def by (simp add: last_rev)
    ultimately show ?thesis
      by (simp add: tz is_trimmed_def)
  qed
qed

lemma digit_not_space: "is_digit c \<Longrightarrow> \<not> is_space c"
  by (auto simp: is_digit_def is_space_def)

lemma trim_ordinal_text_nonempty: "ordinal_text m \<Longrightarrow> trim m \<noteq> []"
proof -
  assume "ordinal_text m"
  then obtain c where "c \<in> set m" "is_digit c"
    unfolding ordinal_text_def by (metis (no_types) hd_in_set set_append UnCI)
  then show "trim m \<noteq> []"
    using digit_not_space unfolding trim_eq_Nil_iff by blast
qed

lemma learningSteps_ordinal:
  "occurs ordinal_text s \<Longrightarrow> learningSteps s = map trim (match_all False re_step s)"
  by (simp add: learningSteps_def str_match_global_Some regex_test_re_step)

lemma learningSteps_lines:
  "\<not> occurs ordinal_text s \<Longrightarrow>
     learningSteps s = take 5 (filter (\<lambda>line. trim line \<noteq> []) (split_on CHR 0x0A s))"
  using str_match_global_None_iff[of False re_step s]
  by (simp add: learningSteps_def regex_test_re_step)

lemma trim_eq_Nil_blank: "trim line = [] \<longleftrightarrow> blank line"
  by (simp add: trim_eq_Nil_iff blank_def list_all_iff)

lemma math_problem_detected: "shouldEnterTutorialMode ''This is a math problem.''"
  by code_simp

lemma three_numbered_steps:
  "learningSteps ''1. Do X\<newline>2. Do Y \<newline>3. Do Z'' = [''1. Do X'', ''2. Do Y'', ''3. Do Z'']"
  by code_simp

text \<open>
  C7, as amended. When the pattern of digits, a period, white space and at least one
  character other than a line feed matches somewhere in the reply, at the start of a line
  or elsewhere, the learning steps are the successive matches in their order, each one
  trimmed, and so every step is a trimmed string that is not empty. Otherwise the
  learning steps are the first lines of the reply that are not blank, five at most. When
  the analysis is educational content and the provider, the speech synthesis and the file
  system succeed, the controller answers 200 and the field \<open>learning_steps\<close> of its
  response holds these steps of the second reply.
\<close>

theorem learning_steps_parsing:
  "(occurs ordinal_text reply_text \<longrightarrow>
      learningSteps reply_text = map trim (match_all False re_step reply_text) \<and>
      successive ordinal_text reply_text (match_all False re_step reply_text) \<and>
      (\<forall>x\<in>set (learningSteps reply_text). is_trimmed x \<and> x \<noteq> [])) \<and>
   (\<not> occurs ordinal_text reply_text \<longrightarrow>
      learningSteps reply_text =
        take 5 (filter (\<lambda>line. \<not> blank line) (split_on CHR 0x0A reply_text))) \<and>
   (image_url b = Some url \<and> url \<noteq> [] \<and>
    createChatCompletion env (vision_request url) = Inr reply \<and> choices reply = m # ms \<and>
    shouldEnterTutorialMode (interp_null (content m)) \<and>
    createChatCompletion env (steps_request (interp_null (content m))) = Inr stepsResponse \<and>
    choices stepsResponse = m' # ms' \<and> content m' = Some reply_text \<and>
    createAudio env \<lparr>audio_model = ''tts-1'', voice = ''alloy'', input = content m\<rparr> =
      Inr audio \<and>
    save_audio env (''response-'' @ show_nat (date_now env) @ ''.mp3'') audio = None \<longrightarrow>
      status (analyzeImage env b) = 200 \<and>
      map_of (body (analyzeImage env b)) ''learning_steps'' =
        Some (JArr (map JStr (learningSteps reply_text))))"
proof (intro conjI impI)
  assume o: "occurs ordinal_text reply_text"
  show eq: "learningSteps reply_text = map trim (match_all False re_step reply_text)"
    by (rule learningSteps_ordinal[OF o])
  show s: "successive ordinal_text reply_text (match_all False re_step reply_text)"
    by (rule match_all_re_step)
  show "\<forall>x\<in>set (learningSteps reply_text). is_trimmed x \<and> x \<noteq> []"
    using successive_all[OF s] trim_ordinal_text_nonempty trim_is_trimmed
    unfolding eq by auto
next
  assume "\<not> occurs ordinal_text reply_text"
  then show "learningSteps reply_text =
        take 5 (filter (\<lambda>line. \<not> blank line) (split_on CHR 0x0A reply_text))"
    by (simp add: learningSteps_lines trim_eq_Nil_blank)
next
  assume a: "image_url b = Some url \<and> url \<noteq> [] \<and>
    createChatCompletion env (vision_request url) = Inr reply \<and> choices reply = m # ms \<and>
    shouldEnterTutorialMode (interp_null (content m)) \<and>
    createChatCompletion env (steps_request (interp_null (content m))) = Inr stepsResponse \<and>
    choices stepsResponse = m' # ms' \<and> content m' = Some reply_text \<and>
    createAudio env \<lparr>audio_model = ''tts-1'', voice = ''alloy'', input = content m\<rparr> =
      Inr audio \<and>
    save_audio env (''response-'' @ show_nat (date_now env) @ ''.mp3'') audio = None"
  then have h: "image_url b = Some url" "url \<noteq> []"
    "createChatCompletion env (vision_request url) = Inr reply" "choices reply = m # ms"
    and e: "shouldEnterTutorialMode (interp_null (content m))"
    "createChatCompletion env (steps_request (interp_null (content m))) = Inr stepsResponse"
    "choices stepsResponse = m' # ms'" "content m' = Some reply_text"
    and f: "createAudio env \<lparr>audio_model = ''tts-1'', voice = ''alloy'', input = content m\<rparr> =
      Inr audio"
    "save_audio env (''response-'' @ show_nat (date_now env) @ ''.mp3'') audio = None"
    by blast+
  note r = analyzeImage_ok[OF h steps_for_educational[OF e] f]
  show "status (analyzeImage env b) = 200"
    by (simp add: r)
  show "map_of (body (analyzeImage env b)) ''learning_steps'' =
        Some (JArr (map JStr (learningSteps reply_text)))"
    by (simp add: r)
qed

theorem learning_steps_parsing_witness:
  "learningSteps ''1. Do X\<newline>2. Do Y \<newline>3. Do Z'' =
     map trim (match_all False re_step ''1. Do X\<newline>2. Do Y \<newline>3. Do Z'') \<and>
   list_all (\<lambda>x. is_trimmed x \<and> x \<noteq> [])
     (learningSteps ''1. Do X\<newline>2. Do Y \<newline>3. Do Z'') \<and>
   learningSteps ''a\<newline>b\<newline>\<newline>c\<newline>d\<newline>e\<newline>f'' =
     take 5 (filter (\<lambda>line. \<not> blank line) (split_on CHR 0x0A ''a\<newline>b\<newline>\<newline>c\<newline>d\<newline>e\<newline>f'')) \<and>
   status (analyzeImage
     (env_replying (\<lambda>rq. if model rq = ''gpt-4-vision-preview''
                         then Inr (reply_with ''This is a math problem.'')
                         else Inr (reply_with ''1. Do X\<newline>2. Do Y \<newline>3. Do Z'')))
     example_image) = 200 \<and>
   map_of (body (analyzeImage
     (env_replying (\<lambda>rq. if model rq = ''gpt-4-vision-preview''
                         then Inr (reply_with ''This is a math problem.'')
                         else Inr (reply_with ''1. Do X\<newline>2. Do Y \<newline>3. Do Z'')))
     example_image)) ''learning_steps'' =
     Some (JArr [JStr ''1. Do X'', JStr ''2. Do Y'', JStr ''3. Do Z''])"
proof -
  let ?s = "''1. Do X\<newline>2. Do Y \<newline>3. Do Z''"
  let ?l = "''a\<newline>b\<newline>\<newline>c\<newline>d\<newline>e\<newline>f''"
  let ?url = "''http://localhost:3000/uploads/images/1.png''"
  let ?env = "env_replying (\<lambda>rq. if model rq = ''gpt-4-vision-preview''
                         then Inr (reply_with ''This is a math problem.'')
                         else Inr (reply_with ?s))"
  let ?m = "\<lparr>function_call = None, content = Some ''This is a math problem.''\<rparr>"
  let ?m' = "\<lparr>function_call = None, content = Some ?s\<rparr>"
  have "regex_test False re_step ?s"
    by code_simp
  then have 1: "occurs ordinal_text ?s"
    using regex_test_re_step by blast
  have "\<not> regex_test False re_step ?l"
    by code_simp
  then have 2: "\<not> occurs ordinal_text ?l"
    using regex_test_re_step by blast
  have h: "image_url example_image = Some ?url \<and> ?url \<noteq> [] \<and>
    createChatCompletion ?env (vision_request ?url) = Inr (reply_with ''This is a math problem.'') \<and>
    choices (reply_with ''This is a math problem.'') = ?m # [] \<and>
    shouldEnterTutorialMode (interp_null (content ?m)) \<and>
    createChatCompletion ?env (steps_request (interp_null (content ?m))) = Inr (reply_with ?s) \<and>
    choices (reply_with ?s) = ?m' # [] \<and> content ?m' = Some ?s \<and>
    createAudio ?env \<lparr>audio_model = ''tts-1'', voice = ''alloy'', input = content ?m\<rparr> =
      Inr ''mp3'' \<and>
    save_audio ?env (''response-'' @ show_nat (date_now ?env) @ ''.mp3'') ''mp3'' = None"
    by (simp add: env_replying_simps example_image_def reply_with_def vision_request_def
        steps_request_def interp_null_def math_problem_detected)
  from learning_steps_parsing[of ?s example_image ?url ?env
      "reply_with ''This is a math problem.''" ?m "[]" "reply_with ?s" ?m' "[]" "''mp3''"] 1 h
  have 3: "learningSteps ?s = map trim (match_all False re_step ?s)"
    and 4: "\<forall>x\<in>set (learningSteps ?s). is_trimmed x \<and> x \<noteq> []"
    and 5: "status (analyzeImage ?env example_image) = 200"
    and 6: "map_of (body (analyzeImage ?env example_image)) ''learning_steps'' =
        Some (JArr (map JStr (learningSteps ?s)))"
    by blast+
  from learning_steps_parsing[of ?l] 2
  have 7: "learningSteps ?l = take 5 (filter (\<lambda>line. \<not> blank line) (split_on CHR 0x0A ?l))"
    by blast
  from 6 have 8: "map_of (body (analyzeImage ?env example_image)) ''learning_steps'' =
      Some (JArr [JStr ''1. Do X'', JStr ''2. Do Y'', JStr ''3. Do Z''])"
    by (simp add: three_numbered_steps)
  from 3 4 5 7 8 show ?thesis
    unfolding list_all_iff by blast
qed

text \<open>
  The claim as it was stated fails in two ways. A number in the middle of a line is matched,
  although no line begins with an ordinal, and the step is then not the line. And a line
  taken by the second branch keeps the white space around it.
\<close>

theorem learning_steps_counterexample:
  "(\<not> list_ex starts_with_ordinal (split_on CHR 0x0A ''Step 1. Do X'') \<and>
    learningSteps ''Step 1. Do X'' = [''1. Do X''] \<and>
    take 5 (filter (\<lambda>line. \<not> blank line) (split_on CHR 0x0A ''Step 1. Do X'')) =
      [''Step 1. Do X'']) \<and>
   (learningSteps ''  Work it out  '' = [''  Work it out  ''] \<and>
    \<not> is_trimmed ''  Work it out  '')"
proof -
  have "\<not> list_ex starts_with_ordinal (split_on CHR 0x0A ''Step 1. Do X'')"
    by code_simp
  moreover have "learningSteps ''Step 1. Do X'' = [''1. Do X'']"
    by code_simp
  moreover have "take 5 (filter (\<lambda>line. \<not> blank line) (split_on CHR 0x0A ''Step 1. Do X'')) =
      [''Step 1. Do X'']"
    by code_simp
  moreover have "learningSteps ''  Work it out  '' = [''  Work it out  '']"
    by code_simp
  moreover have "\<not> is_trimmed ''  Work it out  ''"
    by code_simp
  ultimately show ?thesis
    by blast
qed

lemma six_numbered_steps:
  "learningSteps ''1. a\<newline>2. b\<newline>3. c\<newline>4. d\<newline>5. e\<newline>6. f'' =
     [''1. a'', ''2. b'', ''3. c'', ''4. d'', ''5. e'', ''6. f'']"
  by code_simp

text \<open>
  C8. The branch for numbered steps returns every match: a reply of six numbered lines
  gives six learning steps, although the other branch stops at five and the request asks
  for three to five steps.
\<close>

theorem six_numbered_steps_returned:
  "map_of
     (body (analyzeImage
        (env_replying (\<lambda>rq. if model rq = ''gpt-4-vision-preview''
                            then Inr (reply_with ''This is a math problem.'')
                            else Inr (reply_with
                              ''1. a\<newline>2. b\<newline>3. c\<newline>4. d\<newline>5. e\<newline>6. f'')))
        \<lparr>image_url = Some ''http://localhost:3000/uploads/images/1.png'',
         conversation_id = None\<rparr>))
     ''learning_steps'' =
   Some (JArr [JStr ''1. a'', JStr ''2. b'', JStr ''3. c'', JStr ''4. d'', JStr ''5. e'',
               JStr ''6. f''])"
  by (simp add: analyzeImage_def env_replying_def reply_with_def first_message_def
      steps_for_def interp_null_def vision_request_def steps_request_def
      math_problem_detected six_numbered_steps Let_def)

section \<open>The analysis of a reply\<close>

lemma ci_equal_length: "ci_equal u w \<Longrightarrow> length u = length w"
  unfolding ci_equal_def by (metis length_map)

lemma list_all2_atom_ci:
  "list_all2 (\<lambda>p c. atom_ok True (Chr p) c) w u \<longleftrightarrow> ci_equal u w"
  using list_all2_ci[of w u] by simp

lemma is_space_cases:
  "is_space c \<Longrightarrow> c = CHR 0x09 \<or> c = CHR 0x0A \<or> c = CHR 0x0B \<or> c = CHR 0x0C \<or> c = CHR 0x0D \<or>
     c = CHR 0x20 \<or> c = CHR 0xA0"
  by (simp add: is_space_def)

lemma is_digit_cases:
  "is_digit c \<Longrightarrow> c = CHR ''0'' \<or> c = CHR ''1'' \<or> c = CHR ''2'' \<or> c = CHR ''3'' \<or> c = CHR ''4'' \<or>
     c = CHR ''5'' \<or> c = CHR ''6'' \<or> c = CHR ''7'' \<or> c = CHR ''8'' \<or> c = CHR ''9''"
  by (simp add: is_digit_def)

lemma space_not_letter:
  assumes "is_space c"
  shows "canonicalize c = c" and "\<not> is_digit c"
  using is_space_cases[OF assms]
  by (elim disjE; simp add: canonicalize_def upper_of_def is_digit_def)+

lemma rmatch_digits_after_space:
  assumes "t \<noteq> []" and "is_space (hd t)"
  shows "rmatch ci (Group k (Plus (Atom Digit))) t c = []"
proof -
  obtain x xs where t: "t = x # xs"
    using assms(1) by (cases t) auto
  with assms(2) have "\<not> is_digit x"
    by (simp add: space_not_letter)
  then show ?thesis
    by (simp add: t rmatch_Plus_atom)
qed

lemma rmatch_Seq_lit_len:
  "length w = n \<Longrightarrow>
   rmatch ci (Seq (lit w) r) s cs =
     (if list_all2 (\<lambda>p c. atom_ok ci (Chr p) c) w (take n s)
      then map (\<lambda>(m, c). (n + m, c)) (rmatch ci r (drop n s) cs) else [])"
  using rmatch_Seq_lit[of ci w r s cs] by simp

lemma rmatch_digit_group:
  "rmatch ci (Group k (Plus (Atom Digit))) u cs =
     map (\<lambda>d. (d, (k, take d u) # cs)) (rev [1..<Suc (length (takeWhile is_digit u))])"
proof -
  have a: "atom_ok ci Digit = is_digit"
    by (rule ext) simp
  show ?thesis
    by (simp add: rmatch_Plus_atom a comp_def del: upt_Suc)
qed

lemma rmatch_re_confusion:
  "rmatch True re_confusion s cs =
     (if ci_equal (take 10 s) ''confusion:''
      then map (\<lambda>d. (10 + (length (takeWhile is_space (drop 10 s)) + d),
                      (1, take d (dropWhile is_space (drop 10 s))) # cs))
             (rev [1..<Suc (length (takeWhile is_digit (dropWhile is_space (drop 10 s))))])
      else [])"
proof -
  let ?G = "Group 1 (Plus (Atom Digit))"
  have len: "length ''confusion:'' = 10"
    by simp
  have 1: "rmatch True re_confusion s cs =
      (if ci_equal (take 10 s) ''confusion:''
       then map (\<lambda>(m, c). (10 + m, c))
              (rmatch True (Seq (Star (Atom Space)) ?G) (drop 10 s) cs)
       else [])"
    unfolding re_confusion_def
    using rmatch_Seq_lit_len[OF len, of True "Seq (Star (Atom Space)) ?G" s cs]
    by (simp only: list_all2_atom_ci)
  have 2: "rmatch True (Seq (Star (Atom Space)) ?G) t cs =
      map (\<lambda>(m, c). (length (takeWhile is_space t) + m, c))
        (rmatch True ?G (dropWhile is_space t) cs)" for t
    by (rule rmatch_Seq_spaces[OF rmatch_digits_after_space])
  show ?thesis
    unfolding 1 2 rmatch_digit_group
    by (simp add: comp_def del: upt_Suc)
qed


lemma rmatch_lit_len:
  "length w = n \<Longrightarrow>
   rmatch ci (lit w) s cs =
     (if list_all2 (\<lambda>p c. atom_ok ci (Chr p) c) w (take n s) then [(n, cs)] else [])"
  using rmatch_lit[of ci w s cs] by simp

lemma space_not_T_F:
  assumes "is_space c"
  shows "canonicalize c \<noteq> CHR ''T''" and "canonicalize c \<noteq> CHR ''F''"
  using is_space_cases[OF assms]
  by (elim disjE; simp add: canonicalize_def upper_of_def)+

lemma canonicalize_t_f:
  "canonicalize CHR ''t'' = CHR ''T''" "canonicalize CHR ''f'' = CHR ''F''"
  by (simp_all add: canonicalize_def upper_of_def)

lemma rmatch_true_false_group:
  "rmatch True (Group k (Alt (lit ''true'') (lit ''false''))) t cs =
     (if ci_equal (take 4 t) ''true'' then [(4, (k, take 4 t) # cs)] else []) @
     (if ci_equal (take 5 t) ''false'' then [(5, (k, take 5 t) # cs)] else [])"
proof -
  have 4: "length ''true'' = 4" and 5: "length ''false'' = 5"
    by simp_all
  show ?thesis
    by (simp add: rmatch_lit_len[OF 4] rmatch_lit_len[OF 5] list_all2_atom_ci
        del: atom_ok.simps)
qed

lemma rmatch_true_false_after_space:
  assumes "t \<noteq> []" and "is_space (hd t)"
  shows "rmatch True (Group k (Alt (lit ''true'') (lit ''false''))) t c = []"
proof -
  obtain x xs where t: "t = x # xs"
    using assms(1) by (cases t) auto
  have "\<not> ci_equal (take 4 t) ''true''" and "\<not> ci_equal (take 5 t) ''false''"
    using space_not_T_F[of x] assms(2) canonicalize_t_f
    by (auto simp: t ci_equal_def)
  then show ?thesis
    unfolding rmatch_true_false_group by simp
qed

lemma rmatch_re_correct:
  "rmatch True re_correct s cs =
     (if ci_equal (take 8 s) ''correct:''
      then (if ci_equal (take 4 (dropWhile is_space (drop 8 s))) ''true''
            then [(8 + (length (takeWhile is_space (drop 8 s)) + 4),
                   (1, take 4 (dropWhile is_space (drop 8 s))) # cs)] else []) @
           (if ci_equal (take 5 (dropWhile is_space (drop 8 s))) ''false''
            then [(8 + (length (takeWhile is_space (drop 8 s)) + 5),
                   (1, take 5 (dropWhile is_space (drop 8 s))) # cs)] else [])
      else [])"
proof -
  let ?G = "Group 1 (Alt (lit ''true'') (lit ''false''))"
  have len: "length ''correct:'' = 8"
    by simp
  have 1: "rmatch True re_correct s cs =
      (if ci_equal (take 8 s) ''correct:''
       then map (\<lambda>(m, c). (8 + m, c))
              (rmatch True (Seq (Star (Atom Space)) ?G) (drop 8 s) cs)
       else [])"
    unfolding re_correct_def
    using rmatch_Seq_lit_len[OF len, of True "Seq (Star (Atom Space)) ?G" s cs]
    by (simp only: list_all2_atom_ci)
  have 2: "rmatch True (Seq (Star (Atom Space)) ?G) t cs =
      map (\<lambda>(m, c). (length (takeWhile is_space t) + m, c))
        (rmatch True ?G (dropWhile is_space t) cs)" for t
    by (rule rmatch_Seq_spaces[OF rmatch_true_false_after_space])
  show ?thesis
    unfolding 1 2 rmatch_true_false_group
    by simp
qed

lemma takeWhile_stop:
  assumes "\<forall>c\<in>set ws. P c" and "y = [] \<or> \<not> P (hd y)"
  shows "takeWhile P (ws @ y) = ws" and "dropWhile P (ws @ y) = y"
proof -
  have t: "takeWhile P y = []" and d: "dropWhile P y = y"
    using assms(2) by (cases y; simp)+
  show "takeWhile P (ws @ y) = ws"
    using assms(1) by (simp add: takeWhile_append2 t)
  show "dropWhile P (ws @ y) = y"
    using assms(1) by (simp add: dropWhile_append2 d)
qed

lemma confusion_match_at_iff:
  "confusion_match_at s i cap \<longleftrightarrow>
     i \<le> length s \<and> ci_equal (take 10 (drop i s)) ''confusion:'' \<and>
     cap = takeWhile is_digit (dropWhile is_space (drop 10 (drop i s))) \<and> cap \<noteq> []"
proof
  assume "confusion_match_at s i cap"
  then obtain kw ws post where i: "i \<le> length s" and
    d: "drop i s = kw @ ws @ cap @ post" and kw: "ci_equal kw ''confusion:''" and
    ws: "\<forall>c\<in>set ws. is_space c" and cap: "cap \<noteq> []" "\<forall>c\<in>set cap. is_digit c" and
    post: "post = [] \<or> \<not> is_digit (hd post)"
    unfolding confusion_match_at_def by blast
  have len: "length kw = 10"
    using ci_equal_length[OF kw] by simp
  have "\<not> is_space (hd (cap @ post))"
    using cap digit_not_space by (cases cap) auto
  then have "dropWhile is_space (ws @ cap @ post) = cap @ post"
    using takeWhile_stop(2)[OF ws, of "cap @ post"] by blast
  moreover have "takeWhile is_digit (cap @ post) = cap"
    using takeWhile_stop(1)[OF cap(2) post] .
  ultimately show "i \<le> length s \<and> ci_equal (take 10 (drop i s)) ''confusion:'' \<and>
     cap = takeWhile is_digit (dropWhile is_space (drop 10 (drop i s))) \<and> cap \<noteq> []"
    using i kw cap(1) len by (simp add: d)
next
  assume a: "i \<le> length s \<and> ci_equal (take 10 (drop i s)) ''confusion:'' \<and>
     cap = takeWhile is_digit (dropWhile is_space (drop 10 (drop i s))) \<and> cap \<noteq> []"
  let ?t = "drop 10 (drop i s)"
  let ?u = "dropWhile is_space ?t"
  have "takeWhile is_digit ?u @ dropWhile is_digit ?u = ?u"
    by (rule takeWhile_dropWhile_id)
  then have "cap @ dropWhile is_digit ?u = ?u"
    using a by blast
  then have "drop i s = take 10 (drop i s) @ takeWhile is_space ?t @ cap @ dropWhile is_digit ?u"
    by (simp only: takeWhile_dropWhile_id append_take_drop_id)
  moreover have "\<forall>c\<in>set (takeWhile is_space ?t). is_space c"
    by (auto dest: set_takeWhileD)
  moreover have "\<forall>c\<in>set cap. is_digit c"
    using a by (auto dest: set_takeWhileD)
  moreover have "dropWhile is_digit ?u = [] \<or> \<not> is_digit (hd (dropWhile is_digit ?u))"
    using hd_dropWhile[of is_digit ?u] by blast
  ultimately show "confusion_match_at s i cap"
    unfolding confusion_match_at_def using a by blast
qed

lemma correct_match_at_iff:
  "correct_match_at s i cap \<longleftrightarrow>
     i \<le> length s \<and> ci_equal (take 8 (drop i s)) ''correct:'' \<and>
     ((cap = take 4 (dropWhile is_space (drop 8 (drop i s))) \<and> ci_equal cap ''true'') \<or>
      (cap = take 5 (dropWhile is_space (drop 8 (drop i s))) \<and> ci_equal cap ''false''))"
proof
  assume "correct_match_at s i cap"
  then obtain kw ws post where i: "i \<le> length s" and
    d: "drop i s = kw @ ws @ cap @ post" and kw: "ci_equal kw ''correct:''" and
    ws: "\<forall>c\<in>set ws. is_space c" and cap: "ci_equal cap ''true'' \<or> ci_equal cap ''false''"
    unfolding correct_match_at_def by blast
  have len: "length kw = 8"
    using ci_equal_length[OF kw] by simp
  have c: "length cap = 4 \<and> ci_equal cap ''true'' \<or> length cap = 5 \<and> ci_equal cap ''false''"
    using cap ci_equal_length[of cap] by fastforce
  then obtain x xs where x: "cap = x # xs"
    by (cases cap) auto
  have "canonicalize x = CHR ''T'' \<or> canonicalize x = CHR ''F''"
    using cap canonicalize_t_f by (auto simp: x ci_equal_def)
  then have "\<not> is_space (hd (cap @ post))"
    using space_not_T_F[of x] by (auto simp: x)
  then have "dropWhile is_space (ws @ cap @ post) = cap @ post"
    using takeWhile_stop(2)[OF ws, of "cap @ post"] by blast
  then have "dropWhile is_space (drop 8 (drop i s)) = cap @ post"
    using len by (simp add: d)
  then show "i \<le> length s \<and> ci_equal (take 8 (drop i s)) ''correct:'' \<and>
     ((cap = take 4 (dropWhile is_space (drop 8 (drop i s))) \<and> ci_equal cap ''true'') \<or>
      (cap = take 5 (dropWhile is_space (drop 8 (drop i s))) \<and> ci_equal cap ''false''))"
    using i kw len c by (auto simp: d)
next
  assume a: "i \<le> length s \<and> ci_equal (take 8 (drop i s)) ''correct:'' \<and>
     ((cap = take 4 (dropWhile is_space (drop 8 (drop i s))) \<and> ci_equal cap ''true'') \<or>
      (cap = take 5 (dropWhile is_space (drop 8 (drop i s))) \<and> ci_equal cap ''false''))"
  let ?t = "drop 8 (drop i s)"
  let ?u = "dropWhile is_space ?t"
  obtain n where n: "cap = take n ?u"
    using a by blast
  have "drop i s = take 8 (drop i s) @ takeWhile is_space ?t @ cap @ drop n ?u"
    unfolding n by (simp only: takeWhile_dropWhile_id append_take_drop_id)
  moreover have "\<forall>c\<in>set (takeWhile is_space ?t). is_space c"
    by (auto dest: set_takeWhileD)
  ultimately show "correct_match_at s i cap"
    unfolding correct_match_at_def using a by blast
qed

lemma canonicalize_eq_cases:
  "canonicalize x = CHR ''T'' \<Longrightarrow> x = CHR ''t'' \<or> x = CHR ''T''"
  "canonicalize x = CHR ''R'' \<Longrightarrow> x = CHR ''r'' \<or> x = CHR ''R''"
  "canonicalize x = CHR ''U'' \<Longrightarrow> x = CHR ''u'' \<or> x = CHR ''U''"
  "canonicalize x = CHR ''E'' \<Longrightarrow> x = CHR ''e'' \<or> x = CHR ''E''"
  by (auto simp: canonicalize_def upper_of_def split: if_splits)

lemma toLowerCase_true:
  assumes "ci_equal c ''true''"
  shows "toLowerCase c = ''true''"
proof -
  have "length c = 4"
    using ci_equal_length[OF assms] by simp
  then obtain x1 x2 x3 x4 where c: "c = [x1, x2, x3, x4]"
    by (auto simp: length_Suc_conv numeral_eq_Suc)
  have "canonicalize x1 = CHR ''T''" "canonicalize x2 = CHR ''R''"
    "canonicalize x3 = CHR ''U''" "canonicalize x4 = CHR ''E''"
    using assms by (simp_all add: c ci_equal_def canonicalize_def upper_of_def)
  from canonicalize_eq_cases(1)[OF this(1)] canonicalize_eq_cases(2)[OF this(2)]
    canonicalize_eq_cases(3)[OF this(3)] canonicalize_eq_cases(4)[OF this(4)]
  show ?thesis
    by (elim disjE; simp add: c toLowerCase_def lower_of_def)
qed

lemma toLowerCase_false:
  assumes "ci_equal c ''false''"
  shows "toLowerCase c \<noteq> ''true''"
proof -
  have "length (toLowerCase c) = 5"
    using ci_equal_length[OF assms] by (simp add: toLowerCase_def)
  then show ?thesis
    by auto
qed

lemma digit_facts:
  assumes "is_digit c"
  shows "c \<noteq> CHR ''-''" "c \<noteq> CHR ''+''" "c \<noteq> CHR ''x''" "c \<noteq> CHR ''X''"
    "digit_value 10 c = Some (of_char c - 48)" "(0::int) \<le> of_char c - 48"
  using is_digit_cases[OF assms]
  by (elim disjE; simp add: digit_value_def)+

lemma decimal_nonneg:
  assumes "\<forall>c\<in>set cap. is_digit c"
  shows "0 \<le> decimal cap"
proof -
  have "0 \<le> a \<Longrightarrow> 0 \<le> foldl (\<lambda>acc c. 10 * acc + (of_char c - 48)) a cap" for a :: int
    using assms
  proof (induction cap arbitrary: a)
    case Nil
    then show ?case by simp
  next
    case (Cons y ys)
    from Cons.prems have "0 \<le> 10 * a + (of_char y - 48)"
      using digit_facts(6)[of y] by simp
    with Cons show ?case
      by simp
  qed
  then show ?thesis
    by (simp add: decimal_def)
qed

lemma parseInt_digits:
  assumes "cap \<noteq> []" and "\<forall>c\<in>set cap. is_digit c"
  shows "parseInt cap = number_of (decimal cap)"
proof -
  obtain x xs where c: "cap = x # xs"
    using assms(1) by (cases cap) auto
  have x: "is_digit x"
    using assms(2) c by simp
  have sp: "dropWhile is_space cap = cap"
    using digit_not_space[OF x] by (simp add: c)
  have sign: "take 1 cap \<noteq> ''-''" "take 1 cap \<noteq> ''+''"
    using digit_facts(1,2)[OF x] by (simp_all add: c)
  have hex: "take 2 cap \<noteq> ''0x''" "take 2 cap \<noteq> ''0X''"
  proof -
    show "take 2 cap \<noteq> ''0x''"
    proof
      assume "take 2 cap = ''0x''"
      then have "CHR ''x'' \<in> set cap"
        by (metis in_set_takeD list.set_intros(1,2))
      with assms(2) digit_facts(3) show False
        by blast
    qed
    show "take 2 cap \<noteq> ''0X''"
    proof
      assume "take 2 cap = ''0X''"
      then have "CHR ''X'' \<in> set cap"
        by (metis in_set_takeD list.set_intros(1,2))
      with assms(2) digit_facts(4) show False
        by blast
    qed
  qed
  have tw: "takeWhile (\<lambda>c. digit_value 10 c \<noteq> None) cap = cap"
    using assms(2) digit_facts(5) by (simp add: takeWhile_eq_all_conv)
  have "foldl (\<lambda>acc c. acc * 10 + (case digit_value 10 c of Some d \<Rightarrow> d | None \<Rightarrow> 0)) a cap =
        foldl (\<lambda>acc c. 10 * acc + (of_char c - 48)) a cap" for a
    using assms(2)
  proof (induction cap arbitrary: a)
    case Nil
    show ?case by simp
  next
    case (Cons y ys)
    then show ?case
      by (simp add: digit_facts(5) mult.commute)
  qed
  then have rv: "radix_value 10 cap = decimal cap"
    by (simp add: radix_value_def decimal_def)
  have f: "(take 1 cap = ''-'') = False" "(take 1 cap = ''+'') = False"
    "(take 2 cap = ''0x'') = False" "(take 2 cap = ''0X'') = False" "(cap = []) = False"
    using sign hex assms(1) by simp_all
  show ?thesis
    unfolding parseInt_def Let_def sp
    by (simp only: f simp_thms if_False tw rv)
qed

lemma rev_upt_1_Nil_iff: "rev [1..<Suc D] = [] \<longleftrightarrow> D = 0"
  by auto

lemma rev_upt_1_hd: "0 < D \<Longrightarrow> rev [1..<Suc D] = D # rev [1..<D]"
  by simp

lemma rmatch_confusion_Nil_iff:
  assumes "i \<le> length s"
  shows "rmatch True re_confusion (drop i s) [] = [] \<longleftrightarrow> (\<forall>cap. \<not> confusion_match_at s i cap)"
  unfolding rmatch_re_confusion confusion_match_at_iff using assms
  by (simp del: upt_Suc add: rev_upt_1_Nil_iff)

lemma rmatch_confusion_hd:
  assumes "rmatch True re_confusion (drop i s) [] = (n, cs) # rest" and "i \<le> length s"
  shows "\<exists>cap. cs = [(1, cap)] \<and> confusion_match_at s i cap"
proof -
  let ?t = "dropWhile is_space (drop 10 (drop i s))"
  let ?D = "length (takeWhile is_digit ?t)"
  have ci: "ci_equal (take 10 (drop i s)) ''confusion:''"
    using assms(1) unfolding rmatch_re_confusion by (auto split: if_splits)
  have "rev [1..<Suc ?D] \<noteq> []"
    using assms(1) ci unfolding rmatch_re_confusion by (auto simp del: upt_Suc)
  then have D: "0 < ?D"
    by (simp add: rev_upt_1_Nil_iff del: upt_Suc)
  have "cs = [(1, take ?D ?t)]"
    using assms(1) ci unfolding rmatch_re_confusion rev_upt_1_hd[OF D] by simp
  moreover have "take ?D ?t = takeWhile is_digit ?t"
    by (rule takeWhile_eq_take[symmetric])
  moreover have "takeWhile is_digit ?t \<noteq> []"
    using D by auto
  ultimately show ?thesis
    unfolding confusion_match_at_iff using ci assms(2) by simp
qed

lemma rmatch_correct_Nil_iff:
  assumes "i \<le> length s"
  shows "rmatch True re_correct (drop i s) [] = [] \<longleftrightarrow> (\<forall>cap. \<not> correct_match_at s i cap)"
  unfolding rmatch_re_correct correct_match_at_iff using assms
  by auto

lemma rmatch_correct_hd:
  assumes "rmatch True re_correct (drop i s) [] = (n, cs) # rest" and "i \<le> length s"
  shows "\<exists>cap. cs = [(1, cap)] \<and> correct_match_at s i cap"
  using assms unfolding rmatch_re_correct correct_match_at_iff
  by (auto split: if_splits)

lemma find_first_cases:
  assumes nil: "\<And>i. i \<le> length s \<Longrightarrow> rmatch ci r (drop i s) [] = [] \<longleftrightarrow> (\<forall>cap. \<not> M i cap)"
    and hd: "\<And>i n cs rest. rmatch ci r (drop i s) [] = (n, cs) # rest \<Longrightarrow> i \<le> length s \<Longrightarrow>
          \<exists>cap. cs = [(1, cap)] \<and> M i cap"
    and bound: "\<And>i cap. M i cap \<Longrightarrow> i \<le> length s"
  shows "(find_first ci r s = None \<and> (\<forall>i cap. \<not> M i cap)) \<or>
         (\<exists>i n cap. find_first ci r s = Some (i, n, [(1, cap)]) \<and> first_at M i cap)"
proof (cases "find_first ci r s")
  case None
  then have "\<forall>i\<le>length s. rmatch ci r (drop i s) [] = []"
    by (simp add: find_first_None_iff)
  then have "\<forall>i cap. \<not> M i cap"
    using nil bound by blast
  with None show ?thesis by blast
next
  case (Some a)
  obtain i n cs where a: "a = (i, n, cs)"
    by (cases a)
  from Some a have "find_first ci r s = Some (i, n, cs)"
    by simp
  then obtain rest where i: "i \<le> length s" and
    h: "rmatch ci r (drop i s) [] = (n, cs) # rest" and
    first: "\<forall>j<i. rmatch ci r (drop j s) [] = []"
    unfolding find_first_Some_iff by blast
  from hd[OF h i] obtain cap where cs: "cs = [(1, cap)]" and m: "M i cap"
    by blast
  have "\<forall>j<i. \<forall>c. \<not> M j c"
    using first nil i by (meson less_imp_le_nat order_trans)
  with m have "first_at M i cap"
    by (simp add: first_at_def)
  with Some a cs show ?thesis
    by blast
qed

lemma find_confusion:
  "(find_first True re_confusion s = None \<and> (\<forall>i cap. \<not> confusion_match_at s i cap)) \<or>
   (\<exists>i n cap. find_first True re_confusion s = Some (i, n, [(1, cap)]) \<and>
      first_at (confusion_match_at s) i cap)"
  by (rule find_first_cases[OF rmatch_confusion_Nil_iff rmatch_confusion_hd])
    (simp_all add: confusion_match_at_def)

lemma find_correct:
  "(find_first True re_correct s = None \<and> (\<forall>i cap. \<not> correct_match_at s i cap)) \<or>
   (\<exists>i n cap. find_first True re_correct s = Some (i, n, [(1, cap)]) \<and>
      first_at (correct_match_at s) i cap)"
  by (rule find_first_cases[OF rmatch_correct_Nil_iff rmatch_correct_hd])
    (simp_all add: correct_match_at_def)

lemma first_at_same_position:
  "first_at M i c \<Longrightarrow> first_at M j d \<Longrightarrow> i = j"
  unfolding first_at_def by (meson linorder_neqE_nat)

lemma correct_capture_unique:
  assumes "correct_match_at s i c" and "correct_match_at s i d"
  shows "ci_equal c ''true'' \<longleftrightarrow> ci_equal d ''true''"
proof -
  let ?t = "dropWhile is_space (drop 8 (drop i s))"
  have tf: "\<not> (ci_equal (take 4 ?t) ''true'' \<and> ci_equal (take 5 ?t) ''false'')"
  proof
    assume h: "ci_equal (take 4 ?t) ''true'' \<and> ci_equal (take 5 ?t) ''false''"
    then have "length (take 4 ?t) = 4"
      using ci_equal_length by fastforce
    moreover have "length (take 4 u) = 4 \<Longrightarrow> u \<noteq> []" for u :: string
      by auto
    ultimately have "?t \<noteq> []"
      by blast
    then obtain x xs where t: "?t = x # xs"
      by (cases ?t) blast+
    from h show False
      unfolding t by (auto simp: ci_equal_def canonicalize_t_f)
  qed
  have ft: "\<not> (ci_equal e ''true'' \<and> ci_equal e ''false'')" for e
    using ci_equal_length[of e "''true''"] ci_equal_length[of e "''false''"] by auto
  from assms show ?thesis
    unfolding correct_match_at_iff using tf ft by blast
qed

lemma capture_single: "capture k (m, [(k, cap)]) = Some cap"
  by (simp add: capture_def)

lemma is_correct_value:
  "(case str_match True re_correct free_text of
      None \<Rightarrow> Inr False
    | Some m \<Rightarrow> (case capture 1 m of None \<Rightarrow> Inl e | Some c \<Rightarrow> Inr (toLowerCase c = ''true''))) =
   Inr (stated_is_correct free_text)"
proof -
  from find_correct[of free_text] show ?thesis
  proof (elim disjE conjE exE)
    assume "find_first True re_correct free_text = None" "\<forall>i cap. \<not> correct_match_at free_text i cap"
    then show ?thesis
      by (simp add: str_match_def stated_is_correct_def first_at_def)
  next
    fix i n cap
    assume f: "find_first True re_correct free_text = Some (i, n, [(1, cap)])"
      and first: "first_at (correct_match_at free_text) i cap"
    then have m: "correct_match_at free_text i cap"
      by (simp add: first_at_def)
    then have tf: "ci_equal cap ''true'' \<or> ci_equal cap ''false''"
      unfolding correct_match_at_def by blast
    have "toLowerCase cap = ''true'' \<longleftrightarrow> ci_equal cap ''true''"
      using tf toLowerCase_true[of cap] toLowerCase_false[of cap]
        ci_equal_length[of cap "''true''"] ci_equal_length[of cap "''false''"]
      by auto
    moreover have "stated_is_correct free_text \<longleftrightarrow> ci_equal cap ''true''"
    proof
      assume "stated_is_correct free_text"
      then obtain j d where j: "first_at (correct_match_at free_text) j d" and d: "ci_equal d ''true''"
        unfolding stated_is_correct_def by blast
      from first_at_same_position[OF j first] have "j = i" .
      with j have "correct_match_at free_text i d"
        by (simp add: first_at_def)
      from correct_capture_unique[OF this m] d show "ci_equal cap ''true''"
        by blast
    next
      assume "ci_equal cap ''true''"
      with first show "stated_is_correct free_text"
        unfolding stated_is_correct_def by blast
    qed
    ultimately show ?thesis
      by (simp add: str_match_def f capture_single)
  qed
qed

lemma confusion_capture_unique:
  "confusion_match_at s i c \<Longrightarrow> confusion_match_at s i d \<Longrightarrow> c = d"
  unfolding confusion_match_at_iff by simp

lemma first_confusion_unique:
  "first_at (confusion_match_at s) i c \<Longrightarrow> first_at (confusion_match_at s) j d \<Longrightarrow> c = d"
  using first_at_same_position[of "confusion_match_at s" i c j d]
    confusion_capture_unique[of s i c d]
  by (auto simp: first_at_def)

subsection \<open>Rounding to a double\<close>

text \<open>
  \<open>round_to_double\<close> keeps an integer of at most 53 bits, and otherwise gives a multiple of
  the unit in the last place that has 53 bits and lies within half a unit of the integer.
\<close>

lemma significant_bits_bounds:
  "0 < i \<Longrightarrow> 2 ^ (significant_bits i - 1) \<le> i \<and> i < 2 ^ significant_bits i"
proof (induction i rule: significant_bits.induct)
  case (1 i)
  show ?case
  proof (cases "i = 1")
    case True
    then show ?thesis
      by (simp add: significant_bits.simps[of 1] significant_bits.simps[of 0])
  next
    case False
    with "1.prems" have h: "0 < i div 2" and n: "\<not> i \<le> 0"
      by simp_all
    from "1.IH"[OF n h] have lo: "2 ^ (significant_bits (i div 2) - 1) \<le> i div 2"
      and hi: "i div 2 < 2 ^ significant_bits (i div 2)"
      by simp_all
    have pos: "0 < significant_bits (i div 2)"
      using h by (subst significant_bits.simps) simp
    have s: "significant_bits i = Suc (significant_bits (i div 2))"
      using n by (subst significant_bits.simps) simp
    have "2 ^ (significant_bits i - 1) = 2 * (2::int) ^ (significant_bits (i div 2) - 1)"
      using pos by (simp add: s flip: power_Suc)
    also have "\<dots> \<le> 2 * (i div 2)"
      using lo by simp
    also have "\<dots> \<le> i"
      by simp
    finally have a: "2 ^ (significant_bits i - 1) \<le> i" .
    have "i < 2 * (i div 2 + 1)"
      by simp
    also have "\<dots> \<le> 2 * 2 ^ significant_bits (i div 2)"
      using hi by simp
    finally have "i < 2 ^ significant_bits i"
      by (simp add: s)
    with a show ?thesis
      by simp
  qed
qed

lemma round_to_double_nearest:
  assumes "53 < significant_bits i"
  defines "ulp \<equiv> 2 ^ (significant_bits i - 53)"
  shows "ulp dvd round_to_double i" and "2 * \<bar>round_to_double i - i\<bar> \<le> ulp"
    and "2 ^ 52 * ulp \<le> round_to_double i" and "round_to_double i \<le> 2 ^ 53 * ulp"
proof -
  have pos: "0 < i"
    using assms(1) by (subst (asm) significant_bits.simps) (simp split: if_splits)
  have u: "0 < ulp"
    by (simp add: ulp_def)
  define q r where "q = i div ulp" and "r = i mod ulp"
  have i: "i = q * ulp + r" and r: "0 \<le> r" "r < ulp"
    using u by (simp_all add: q_def r_def)
  have "(2::int) ^ (significant_bits i - 1) = 2 ^ (52 + (significant_bits i - 53))"
    and "(2::int) ^ significant_bits i = 2 ^ (53 + (significant_bits i - 53))"
    using assms(1) by simp_all
  then have "(2::int) ^ (significant_bits i - 1) = 2 ^ 52 * ulp"
    and "(2::int) ^ significant_bits i = 2 ^ 53 * ulp"
    unfolding ulp_def by (simp_all only: power_add)
  with significant_bits_bounds[OF pos] have lo: "2 ^ 52 * ulp \<le> i" and hi: "i < 2 ^ 53 * ulp"
    by simp_all
  from lo have "(2 ^ 52 * ulp) div ulp \<le> i div ulp"
    using u by (rule zdiv_mono1)
  then have qlo: "2 ^ 52 \<le> q"
    using u by (simp add: q_def)
  have "q * ulp \<le> i"
    using i r by simp
  with hi have "q * ulp < 2 ^ 53 * ulp"
    by simp
  then have qhi: "q < 2 ^ 53"
    using u by simp
  have d: "round_to_double i = (if ulp < 2 * r \<or> (2 * r = ulp \<and> odd q) then q + 1 else q) * ulp"
    using assms(1) by (simp add: round_to_double_def Let_def ulp_def q_def r_def)
  show "ulp dvd round_to_double i"
    by (simp add: d)
  have "round_to_double i - i =
      (if ulp < 2 * r \<or> (2 * r = ulp \<and> odd q) then q + 1 else q) * ulp - (q * ulp + r)"
    unfolding d using i by simp
  also have "\<dots> = (if ulp < 2 * r \<or> (2 * r = ulp \<and> odd q) then ulp - r else - r)"
    by (simp add: algebra_simps)
  finally have diff: "round_to_double i - i =
      (if ulp < 2 * r \<or> (2 * r = ulp \<and> odd q) then ulp - r else - r)" .
  show "2 * \<bar>round_to_double i - i\<bar> \<le> ulp"
    unfolding diff using r by auto
  have "q * ulp \<le> round_to_double i"
    using u by (simp add: d distrib_right)
  moreover have "2 ^ 52 * ulp \<le> q * ulp"
    using qlo u by simp
  ultimately show "2 ^ 52 * ulp \<le> round_to_double i"
    by simp
  have "round_to_double i \<le> (q + 1) * ulp"
    using u by (simp add: d distrib_right)
  moreover have "(q + 1) * ulp \<le> 2 ^ 53 * ulp"
    using qhi u by simp
  ultimately show "round_to_double i \<le> 2 ^ 53 * ulp"
    by simp
qed

lemma round_to_double_ties:
  "round_to_double 9007199254740993 = 9007199254740992"
  "round_to_double 9007199254740995 = 9007199254740996"
  by code_simp+

lemma parseInt_examples:
  "parseInt ''007'' = JNum 7"
  "parseInt '' -12px'' = JNum (- 12)"
  "parseInt ''0x1F'' = JNum 31"
  "parseInt ''px'' = JNaN"
  "parseInt ''9007199254740993'' = JNum 9007199254740992"
  by code_simp+

lemma round_to_double_exact:
  assumes "0 \<le> i" and "i \<le> 2 ^ 53"
  shows "round_to_double i = i"
proof (cases "i = 2 ^ 53")
  case True
  have "round_to_double (2 ^ 53) = 2 ^ 53"
    by code_simp
  with True show ?thesis
    by simp
next
  case False
  show ?thesis
  proof (cases "i = 0")
    case True
    then show ?thesis
      by (simp add: round_to_double_def significant_bits.simps[of 0])
  next
    case nz: False
    with assms False have "0 < i" "i < 2 ^ 53"
      by simp_all
    with significant_bits_bounds[of i] have "(2::int) ^ (significant_bits i - 1) < 2 ^ 53"
      by simp
    from power_less_imp_less_exp[OF _ this] have "significant_bits i - 1 < 53"
      by simp
    then have "significant_bits i \<le> 53"
      by linarith
    then show ?thesis
      by (simp add: round_to_double_def Let_def)
  qed
qed

lemma round_to_double_lower:
  assumes "2 ^ k \<le> i" and "53 \<le> k"
  shows "2 ^ k \<le> round_to_double i"
proof -
  let ?e = "significant_bits i"
  have "(0::int) < 2 ^ k"
    by simp
  with assms(1) have pos: "0 < i"
    by linarith
  from significant_bits_bounds[OF pos] have lo: "2 ^ (?e - 1) \<le> i" and hi: "i < 2 ^ ?e"
    by simp_all
  from assms(1) hi have "(2::int) ^ k < 2 ^ ?e"
    by (rule le_less_trans)
  from power_less_imp_less_exp[OF _ this] have e: "k < ?e"
    by simp
  define ulp :: int where "ulp = 2 ^ (?e - 53)"
  have u: "0 < ulp"
    by (simp add: ulp_def)
  have "?e - 1 = 52 + (?e - 53)"
    using e assms(2) by linarith
  then have split: "(2::int) ^ (?e - 1) = 2 ^ 52 * ulp"
    unfolding ulp_def by (simp only: power_add)
  have "2 ^ 52 * ulp \<le> i"
    using lo split by simp
  then have "(2 ^ 52 * ulp) div ulp \<le> i div ulp"
    using u by (rule zdiv_mono1)
  then have q: "2 ^ 52 \<le> i div ulp"
    using u by simp
  have "(2::int) ^ k \<le> 2 ^ (?e - 1)"
    using e by (intro power_increasing) simp_all
  also have "\<dots> = 2 ^ 52 * ulp"
    by (rule split)
  also have "\<dots> \<le> (i div ulp) * ulp"
    using q u by simp
  also have "\<dots> \<le> (if ulp < 2 * (i mod ulp) \<or> (2 * (i mod ulp) = ulp \<and> odd (i div ulp))
                   then i div ulp + 1 else i div ulp) * ulp"
    using u by (simp add: distrib_right)
  also have "\<dots> = round_to_double i"
    using e assms(2) by (simp add: round_to_double_def Let_def ulp_def)
  finally show ?thesis .
qed

lemma significant_bits_unique:
  assumes "2 ^ n \<le> i" and "i < 2 ^ Suc n"
  shows "significant_bits i = Suc n"
proof -
  have "(0::int) < 2 ^ n"
    by simp
  with assms(1) have pos: "0 < i"
    by linarith
  from significant_bits_bounds[OF pos]
  have lo: "2 ^ (significant_bits i - 1) \<le> i" and hi: "i < 2 ^ significant_bits i"
    by simp_all
  from lo assms(2) have "(2::int) ^ (significant_bits i - 1) < 2 ^ Suc n"
    by (rule le_less_trans)
  from power_less_imp_less_exp[OF _ this] have "significant_bits i - 1 < Suc n"
    by simp
  moreover from assms(1) hi have "(2::int) ^ n < 2 ^ significant_bits i"
    by (rule le_less_trans)
  from power_less_imp_less_exp[OF _ this] have "n < significant_bits i"
    by simp
  ultimately show ?thesis
    by linarith
qed

lemma round_to_double_infinite_iff:
  assumes "0 \<le> i"
  shows "2 ^ 1024 \<le> round_to_double i \<longleftrightarrow> 2 ^ 1024 - 2 ^ 970 \<le> i"
proof (cases "2 ^ 1023 \<le> i \<and> i < 2 ^ 1024")
  case True
  then have e: "significant_bits i = 1024"
    using significant_bits_unique[of 1023 i] by simp
  define q r where "q = i div 2 ^ 971" and "r = i mod 2 ^ 971"
  have i: "i = q * 2 ^ 971 + r" and r: "0 \<le> r" "r < 2 ^ 971"
    by (simp_all add: q_def r_def)
  have d: "round_to_double i =
      (if 2 ^ 971 < 2 * r \<or> (2 * r = 2 ^ 971 \<and> odd q) then q + 1 else q) * 2 ^ 971"
    by (simp add: round_to_double_def Let_def e q_def r_def)
  have "q * 2 ^ 971 \<le> i"
    using i r by linarith
  with True have "q * 2 ^ 971 < 2 ^ 53 * 2 ^ 971"
    by simp
  then have qhi: "q < 2 ^ 53"
    by simp
  show ?thesis
  proof (cases "q = 2 ^ 53 - 1")
    case q: True
    then have "odd q"
      by simp
    then have "round_to_double i = (if 2 ^ 971 \<le> 2 * r then 2 ^ 53 else 2 ^ 53 - 1) * 2 ^ 971"
      unfolding d using q by (simp add: le_less)
    moreover have "2 ^ 1024 - 2 ^ 970 \<le> i \<longleftrightarrow> 2 ^ 971 \<le> 2 * r"
      by (subst i) (simp add: q)
    ultimately show ?thesis
      by simp
  next
    case False
    with qhi have q: "q + 1 \<le> 2 ^ 53 - 1"
      by simp
    have "round_to_double i \<le> (q + 1) * 2 ^ 971"
      unfolding d by (simp add: distrib_right)
    also have "\<dots> \<le> (2 ^ 53 - 1) * 2 ^ 971"
      using q by (intro mult_right_mono) simp_all
    finally have 1: "round_to_double i < 2 ^ 1024"
      by simp
    have "i < (q + 1) * 2 ^ 971"
      using i r by (simp add: distrib_right)
    also have "\<dots> \<le> (2 ^ 53 - 1) * 2 ^ 971"
      using q by (intro mult_right_mono) simp_all
    finally have "i < 2 ^ 1024 - 2 ^ 970"
      by simp
    with 1 show ?thesis
      by simp
  qed
next
  case False
  show ?thesis
  proof (cases "2 ^ 1024 \<le> i")
    case True
    then have "2 ^ 1024 \<le> round_to_double i"
      by (rule round_to_double_lower) simp
    with True show ?thesis
      by simp
  next
    case f: False
    with False have small: "i < 2 ^ 1023"
      by simp
    have "round_to_double i \<le> 2 ^ 1023"
    proof (cases "53 < significant_bits i")
      case True
      have pos: "0 < i"
        using True by (subst (asm) significant_bits.simps) (simp split: if_splits)
      from significant_bits_bounds[OF pos] small
      have "(2::int) ^ (significant_bits i - 1) < 2 ^ 1023"
        by simp
      from power_less_imp_less_exp[OF _ this] have "significant_bits i - 1 < 1023"
        by simp
      with True have "53 + (significant_bits i - 53) \<le> 1023"
        by linarith
      then have "(2::int) ^ (53 + (significant_bits i - 53)) \<le> 2 ^ 1023"
        by (intro power_increasing) simp_all
      then have "(2::int) ^ 53 * 2 ^ (significant_bits i - 53) \<le> 2 ^ 1023"
        by (simp only: power_add)
      with round_to_double_nearest(4)[OF True] show ?thesis
        by linarith
    next
      case False
      then have "round_to_double i = i"
        by (simp add: round_to_double_def Let_def)
      with small show ?thesis
        by simp
    qed
    with small show ?thesis
      by simp
  qed
qed

lemma number_of_exact: "0 \<le> i \<Longrightarrow> i \<le> 2 ^ 53 \<Longrightarrow> number_of i = JNum i"
  by (simp add: number_of_def round_to_double_exact)

lemma number_of_infinite_iff:
  assumes "0 \<le> i"
  shows "number_of i = JInfinity \<longleftrightarrow> 2 ^ 1024 - 2 ^ 970 \<le> i"
proof -
  from assms have "\<bar>i\<bar> = i" "\<not> i < 0"
    by simp_all
  then have "number_of i = JInfinity \<longleftrightarrow> 2 ^ 1024 \<le> round_to_double i"
    by (simp only: number_of_def Let_def if_False split: if_splits) simp
  then show ?thesis
    by (simp only: round_to_double_infinite_iff[OF assms])
qed

lemma number_of_large:
  assumes "2 ^ 53 \<le> i"
  shows "number_of i = JInfinity \<or> (\<exists>n. number_of i = JNum n \<and> 2 ^ 53 \<le> n)"
proof -
  have "(0::int) < 2 ^ 53"
    by simp
  with assms have "0 \<le> i"
    by linarith
  then have "\<bar>i\<bar> = i" "\<not> i < 0"
    by simp_all
  moreover have "2 ^ 53 \<le> round_to_double i"
    using assms by (rule round_to_double_lower) simp
  ultimately show ?thesis
    by (simp only: number_of_def Let_def if_False split: if_splits) simp
qed

lemma number_of_cases:
  assumes "0 \<le> i"
  shows "number_of i = JInfinity \<or> (\<exists>n. number_of i = JNum n \<and> 0 \<le> n)"
proof (cases "i \<le> 2 ^ 53")
  case True
  with assms show ?thesis
    by (simp add: number_of_exact)
next
  case False
  then have "2 ^ 53 \<le> i"
    by simp
  from number_of_large[OF this] show ?thesis
    by auto
qed

subsection \<open>The fields of the response\<close>

lemma confusion_level_value:
  "\<exists>cl. (case str_match True re_confusion free_text of
           None \<Rightarrow> JNum 5
         | Some m \<Rightarrow> (case capture 1 m of None \<Rightarrow> JNaN | Some c \<Rightarrow> parseInt c)) = cl \<and>
        ((\<forall>i cap. \<not> confusion_match_at free_text i cap) \<longrightarrow> cl = JNum 5) \<and>
        (\<forall>i cap. first_at (confusion_match_at free_text) i cap \<longrightarrow>
           cl = number_of (decimal cap))"
proof -
  from find_confusion[of free_text] show ?thesis
  proof (elim disjE conjE exE)
    assume "find_first True re_confusion free_text = None"
      "\<forall>i cap. \<not> confusion_match_at free_text i cap"
    then show ?thesis
      by (simp add: str_match_def first_at_def)
  next
    fix i n cap
    assume f: "find_first True re_confusion free_text = Some (i, n, [(1, cap)])"
      and first: "first_at (confusion_match_at free_text) i cap"
    then have m: "confusion_match_at free_text i cap"
      by (simp add: first_at_def)
    then have "cap \<noteq> []" "\<forall>c\<in>set cap. is_digit c"
      unfolding confusion_match_at_def by blast+
    then have p: "parseInt cap = number_of (decimal cap)"
      by (rule parseInt_digits)
    have "cap' = cap" if "first_at (confusion_match_at free_text) j cap'" for j cap'
      using first_confusion_unique[OF that first] .
    with m p show ?thesis
      by (auto simp: str_match_def f capture_single)
  qed
qed

lemma fallback_analysis_result:
  "\<exists>cl. fallback_analysis free_text =
          Inr (JObj [(''is_correct'', JBool (stated_is_correct free_text)),
                     (''confusion_level'', cl), (''feedback'', JStr free_text)]) \<and>
        ((\<forall>i cap. \<not> confusion_match_at free_text i cap) \<longrightarrow> cl = JNum 5) \<and>
        (\<forall>i cap. first_at (confusion_match_at free_text) i cap \<longrightarrow>
           cl = number_of (decimal cap))"
proof -
  from confusion_level_value[of free_text] obtain cl where
    "(case str_match True re_confusion free_text of
           None \<Rightarrow> JNum 5
         | Some m \<Rightarrow> (case capture 1 m of None \<Rightarrow> JNaN | Some c \<Rightarrow> parseInt c)) = cl"
    and "(\<forall>i cap. \<not> confusion_match_at free_text i cap) \<longrightarrow> cl = JNum 5"
    and "\<forall>i cap. first_at (confusion_match_at free_text) i cap \<longrightarrow> cl = number_of (decimal cap)"
    by blast
  then show ?thesis
    by (simp only: fallback_analysis_def Let_def is_correct_value sum.case) blast
qed

lemma map_of_obj_set: "map_of (obj_set k v kvs) k' = (if k' = k then Some v else map_of kvs k')"
  by (induction kvs) auto

lemma keys_obj_set:
  "map fst (obj_set k v kvs) = (if k \<in> fst ` set kvs then map fst kvs else map fst kvs @ [k])"
  by (induction kvs) (fastforce simp: image_iff)+

lemma distinct_obj_set: "distinct (map fst kvs) \<Longrightarrow> distinct (map fst (obj_set k v kvs))"
  by (simp add: keys_obj_set)

lemma distinct_foldl_obj_set:
  "distinct (map fst t) \<Longrightarrow> distinct (map fst (foldl (\<lambda>acc (k, x). obj_set k x acc) t kvs))"
proof (induction kvs arbitrary: t)
  case Nil
  then show ?case by simp
next
  case (Cons a kvs)
  obtain k x where a: "a = (k, x)" by (cases a)
  from Cons.prems show ?case
    by (simp add: a Cons.IH distinct_obj_set)
qed

lemma map_of_foldl_obj_set:
  "map_of (foldl (\<lambda>acc (k, x). obj_set k x acc) t kvs) key =
     (case map_of (rev kvs) key of Some v \<Rightarrow> Some v | None \<Rightarrow> map_of t key)"
proof (induction kvs arbitrary: t)
  case Nil
  show ?case by simp
next
  case (Cons a kvs)
  obtain k x where a: "a = (k, x)" by (cases a)
  show ?case
    by (simp add: a Cons.IH map_of_obj_set map_add_def split: option.splits)
qed

lemma map_of_own_property_order:
  assumes "distinct (map fst kvs)"
  shows "map_of (own_property_order kvs) = map_of kvs"
proof -
  let ?P = "\<lambda>(k, v). array_index k \<noteq> None"
  let ?Q = "\<lambda>(k, v). array_index k = None"
  let ?f = "\<lambda>(k, v). case array_index k of Some i \<Rightarrow> i | None \<Rightarrow> (0::int)"
  from assms have d: "distinct kvs" and inj: "inj_on fst (set kvs)"
    by (simp_all add: distinct_map)
  have s: "set (own_property_order kvs) = set kvs"
    by (auto simp: own_property_order_def)
  have "set (filter ?P kvs) \<inter> set (filter ?Q kvs) = {}"
    by auto
  with d have "distinct (own_property_order kvs)"
    by (simp add: own_property_order_def)
  with inj s have "distinct (map fst (own_property_order kvs))"
    by (simp add: distinct_map)
  with assms s show ?thesis
    by (simp add: map_of_inject_set)
qed

lemma map_of_spread:
  assumes "distinct (map fst t)"
  shows "map_of (spread t v) key =
     (case map_of (rev (own_props v)) key of Some x \<Rightarrow> Some x | None \<Rightarrow> map_of t key)"
  unfolding spread_def
  by (simp only: map_of_own_property_order[OF distinct_foldl_obj_set[OF assms]]
      map_of_foldl_obj_set)

lemma map_of_spread_absent:
  "distinct (map fst t) \<Longrightarrow> key \<notin> fst ` set (own_props v) \<Longrightarrow>
   map_of (spread t v) key = map_of t key"
  by (simp add: map_of_spread map_of_eq_None_iff[THEN iffD2] split: option.splits)

lemma map_of_spread_present:
  assumes "distinct (map fst t)" and "distinct (map fst kvs)" and "map_of kvs key = Some x"
  shows "map_of (spread t (JObj kvs)) key = Some x"
proof -
  have "map_of (rev kvs) key = Some x"
    using assms(2,3) by (metis distinct_rev map_of_is_SomeI map_of_SomeD rev_map set_rev)
  then show ?thesis
    by (simp add: map_of_spread[OF assms(1)])
qed

lemma map_of_json_body: "map_of (json_body kvs) key = map_option to_json (map_of kvs key)"
  unfolding json_body_def by (induction kvs) auto

lemma not_array_index:
  "array_index ''success'' = None" "array_index ''is_correct'' = None"
  "array_index ''confusion_level'' = None" "array_index ''feedback'' = None"
  by (simp_all add: array_index_def is_digit_def)

lemma spread_fallback:
  "spread [(''success'', JBool True)]
     (JObj [(''is_correct'', a), (''confusion_level'', b), (''feedback'', c)]) =
   [(''success'', JBool True), (''is_correct'', a), (''confusion_level'', b), (''feedback'', c)]"
  by (simp add: spread_def own_property_order_def not_array_index)

lemma spread_array_example:
  "json_body (spread [(''success'', JBool True)] (JArr [JNum 7, JNum 8])) =
     [(''0'', JNum 7), (''1'', JNum 8), (''success'', JBool True)]"
  by code_simp

lemma json_body_fallback:
  "json_body (spread [(''success'', JBool True)]
     (JObj [(''is_correct'', JBool a), (''confusion_level'', b), (''feedback'', JStr c)])) =
   [(''success'', JBool True), (''is_correct'', JBool a), (''confusion_level'', to_json b),
    (''feedback'', JStr c)]"
  by (simp only: spread_fallback) (simp add: json_body_def)

lemma analyze_ok:
  assumes "truthy (studentResponse b)" and "truthy (analyze_body.context' b)"
    and "createChatCompletion env (analyze_request b) = Inr reply"
    and "choices reply = m # ms"
    and "analysisResult env reply = Inr result"
  shows "analyzeStudentResponse env b =
     (\<lparr>status = 200, body = json_body (spread [(''success'', JBool True)] result)\<rparr>,
      [analyze_request b])"
  using assms by (simp add: analyzeStudentResponse_def)

lemma analysisResult_free_text:
  "choices reply = m # ms \<Longrightarrow> function_call m = None \<Longrightarrow> content m = Some free_text \<Longrightarrow>
   analysisResult env reply = fallback_analysis free_text"
  by (simp add: analysisResult_def first_message_def)

lemma analysisResult_structured:
  "choices reply = m # ms \<Longrightarrow> function_call m = Some fc \<Longrightarrow>
   analysisResult env reply = JSON_parse env (arguments fc)"
  by (simp add: analysisResult_def first_message_def)

lemma example_answer_truthy:
  "truthy (studentResponse example_answer)" "truthy (analyze_body.context' example_answer)"
  by (simp_all add: example_answer_def truthy_def)

lemma free_text_response:
  assumes "truthy (studentResponse b)" and "truthy (analyze_body.context' b)"
    and "createChatCompletion env (analyze_request b) = Inr reply"
    and "choices reply = m # ms" and "function_call m = None"
    and "content m = Some free_text"
  shows "\<exists>cl. analyzeStudentResponse env b =
           (\<lparr>status = 200,
             body = [(''success'', JBool True),
                     (''is_correct'', JBool (stated_is_correct free_text)),
                     (''confusion_level'', to_json cl),
                     (''feedback'', JStr free_text)]\<rparr>, [analyze_request b]) \<and>
         ((\<forall>i cap. \<not> confusion_match_at free_text i cap) \<longrightarrow> cl = JNum 5) \<and>
         (\<forall>i cap. first_at (confusion_match_at free_text) i cap \<longrightarrow>
            cl = number_of (decimal cap))"
proof -
  from fallback_analysis_result[of free_text] obtain cl where
    f: "fallback_analysis free_text =
          Inr (JObj [(''is_correct'', JBool (stated_is_correct free_text)),
                     (''confusion_level'', cl), (''feedback'', JStr free_text)])" and
    cl: "(\<forall>i cap. \<not> confusion_match_at free_text i cap) \<longrightarrow> cl = JNum 5"
      "\<forall>i cap. first_at (confusion_match_at free_text) i cap \<longrightarrow> cl = number_of (decimal cap)"
    by blast
  have "analysisResult env reply =
          Inr (JObj [(''is_correct'', JBool (stated_is_correct free_text)),
                     (''confusion_level'', cl), (''feedback'', JStr free_text)])"
    using analysisResult_free_text[OF assms(4-6)] f by simp
  from analyze_ok[OF assms(1-4) this]
  have "analyzeStudentResponse env b =
           (\<lparr>status = 200,
             body = [(''success'', JBool True),
                     (''is_correct'', JBool (stated_is_correct free_text)),
                     (''confusion_level'', to_json cl),
                     (''feedback'', JStr free_text)]\<rparr>, [analyze_request b])"
    by (simp only: json_body_fallback)
  with cl show ?thesis
    by blast
qed

lemma first_match_digits:
  "first_at (confusion_match_at s) i cap \<Longrightarrow> 0 \<le> decimal cap"
  unfolding first_at_def confusion_match_at_def by (blast intro: decimal_nonneg)

lemma stated_confusion_level_nonneg: "stated_confusion_level s n \<Longrightarrow> 0 \<le> n"
  unfolding stated_confusion_level_def using first_match_digits by auto

lemma stated_confusion_level_total: "\<exists>n. stated_confusion_level s n"
  using find_confusion[of s] unfolding stated_confusion_level_def by blast

lemma to_json_number_of_exact: "0 \<le> n \<Longrightarrow> n \<le> 2 ^ 53 \<Longrightarrow> to_json (number_of n) = JNum n"
  by (simp add: number_of_exact)

lemma to_json_number_of_null_iff:
  assumes "0 \<le> n"
  shows "to_json (number_of n) = JNull \<longleftrightarrow> 2 ^ 1024 - 2 ^ 970 \<le> n"
  using number_of_cases[OF assms] number_of_infinite_iff[OF assms] by auto

lemma to_json_number_of_small:
  assumes "0 \<le> d" and "to_json (number_of d) = JNum n" and "n < 2 ^ 53"
  shows "d = n"
proof (cases "d \<le> 2 ^ 53")
  case True
  with assms show ?thesis
    by (simp add: number_of_exact)
next
  case False
  then have "2 ^ 53 \<le> d"
    by simp
  from number_of_large[OF this] assms(2,3) show ?thesis
    by auto
qed

lemma to_json_number_of_cases:
  "0 \<le> d \<Longrightarrow> to_json (number_of d) = JNull \<or> (\<exists>n. to_json (number_of d) = JNum n \<and> 0 \<le> n)"
  using number_of_cases[of d] by auto

lemma free_text_confusion_level:
  assumes "(\<forall>i cap. \<not> confusion_match_at free_text i cap) \<longrightarrow> cl = JNum 5"
    and "\<forall>i cap. first_at (confusion_match_at free_text) i cap \<longrightarrow> cl = number_of (decimal cap)"
    and "stated_confusion_level free_text n"
  shows "to_json cl = to_json (number_of n)"
  using assms(3) unfolding stated_confusion_level_def
proof (elim disjE exE conjE)
  fix i cap
  assume "first_at (confusion_match_at free_text) i cap" "n = decimal cap"
  with assms(2) show ?thesis
    by simp
next
  assume "\<forall>i cap. \<not> confusion_match_at free_text i cap" "n = 5"
  with assms(1) show ?thesis
    by (simp add: number_of_exact)
qed

text \<open>
  C1, as amended. For a reply without a function call the result comes from the free text
  alone: \<open>is_correct\<close> is true exactly when the text matches the pattern for \<open>correct:\<close>
  and the first match captures \<open>true\<close> in any case; \<open>confusion_level\<close> is 5 when the
  pattern for \<open>confusion:\<close> has no match, and otherwise the number that \<open>parseInt\<close> makes
  of the digits captured by the first match, as the JSON body writes it: the integer
  captured as long as that is at most \<open>2^53\<close>, the double nearest to it beyond, and
  \<open>null\<close> from \<open>2^1024 - 2^970\<close> on, where the rounding gives an infinity; and
  \<open>feedback\<close> is the whole text, unchanged.
\<close>

theorem free_text_analysis:
  assumes "truthy (studentResponse b)" and "truthy (analyze_body.context' b)"
    and "createChatCompletion env (analyze_request b) = Inr reply"
    and "choices reply = m # ms" and "function_call m = None"
    and "content m = Some free_text"
  shows "\<exists>cl. analyzeStudentResponse env b =
           (\<lparr>status = 200,
             body = [(''success'', JBool True),
                     (''is_correct'', JBool (stated_is_correct free_text)),
                     (''confusion_level'', cl),
                     (''feedback'', JStr free_text)]\<rparr>, [analyze_request b]) \<and>
         (\<forall>n. stated_confusion_level free_text n \<longrightarrow> cl = to_json (number_of n)) \<and>
         (\<forall>n. stated_confusion_level free_text n \<and> n \<le> 2 ^ 53 \<longrightarrow> cl = JNum n) \<and>
         (\<forall>n. stated_confusion_level free_text n \<longrightarrow>
              (cl = JNull \<longleftrightarrow> 2 ^ 1024 - 2 ^ 970 \<le> n)) \<and>
         (\<forall>n. cl = JNum n \<and> n < 2 ^ 53 \<longrightarrow> stated_confusion_level free_text n)"
proof -
  from free_text_response[OF assms] obtain c where
    r: "analyzeStudentResponse env b =
           (\<lparr>status = 200,
             body = [(''success'', JBool True),
                     (''is_correct'', JBool (stated_is_correct free_text)),
                     (''confusion_level'', to_json c),
                     (''feedback'', JStr free_text)]\<rparr>, [analyze_request b])" and
    c: "(\<forall>i cap. \<not> confusion_match_at free_text i cap) \<longrightarrow> c = JNum 5"
      "\<forall>i cap. first_at (confusion_match_at free_text) i cap \<longrightarrow> c = number_of (decimal cap)"
    by blast
  have exact: "to_json c = to_json (number_of n)" if "stated_confusion_level free_text n" for n
    using free_text_confusion_level[OF c that] .
  have small: "to_json c = JNum n" if "stated_confusion_level free_text n \<and> n \<le> 2 ^ 53" for n
    using exact[of n] that stated_confusion_level_nonneg[of free_text n]
    by (simp add: to_json_number_of_exact)
  have large: "to_json c = JNull \<longleftrightarrow> 2 ^ 1024 - 2 ^ 970 \<le> n"
    if "stated_confusion_level free_text n" for n
    using exact[OF that] to_json_number_of_null_iff[OF stated_confusion_level_nonneg[OF that]]
    by simp
  have only_if: "stated_confusion_level free_text n" if "to_json c = JNum n \<and> n < 2 ^ 53" for n
  proof -
    from stated_confusion_level_total[of free_text] obtain d where
      d: "stated_confusion_level free_text d"
      by blast
    from exact[OF d] that have "to_json (number_of d) = JNum n"
      by simp
    from to_json_number_of_small[OF stated_confusion_level_nonneg[OF d] this] that
    have "d = n"
      by simp
    with d show ?thesis
      by simp
  qed
  from r exact small large only_if show ?thesis
    by blast
qed

lemma example_free_text:
  "fallback_analysis ''correct: true\<newline>confusion: 7\<newline>keep going'' =
     Inr (JObj [(''is_correct'', JBool True), (''confusion_level'', JNum 7),
                (''feedback'', JStr ''correct: true\<newline>confusion: 7\<newline>keep going'')])"
  by code_simp

theorem free_text_analysis_witness:
  "stated_is_correct ''correct: true\<newline>confusion: 7\<newline>keep going'' \<and>
   stated_confusion_level ''correct: true\<newline>confusion: 7\<newline>keep going'' 7"
proof -
  let ?t = "''correct: true\<newline>confusion: 7\<newline>keep going''"
  let ?env = "env_replying (\<lambda>_. Inr (reply_with ?t))"
  have r: "createChatCompletion ?env (analyze_request example_answer) = Inr (reply_with ?t)"
    by (simp add: env_replying_def)
  have c: "choices (reply_with ?t) = [\<lparr>function_call = None, content = Some ?t\<rparr>]"
    by (simp add: reply_with_def)
  from free_text_analysis[OF example_answer_truthy r c, of ?t]
  obtain cl where
    a: "analyzeStudentResponse ?env example_answer =
           (\<lparr>status = 200,
             body = [(''success'', JBool True),
                     (''is_correct'', JBool (stated_is_correct ?t)),
                     (''confusion_level'', cl),
                     (''feedback'', JStr ?t)]\<rparr>, [analyze_request example_answer])" and
    cl: "\<forall>n. cl = JNum n \<and> n < 2 ^ 53 \<longrightarrow> stated_confusion_level ?t n"
    by auto
  have "analysisResult ?env (reply_with ?t) = fallback_analysis ?t"
    by (rule analysisResult_free_text[OF c]) simp_all
  from analyze_ok[OF example_answer_truthy r c, of "JObj
      [(''is_correct'', JBool True), (''confusion_level'', JNum 7), (''feedback'', JStr ?t)]"]
    this example_free_text
  have "analyzeStudentResponse ?env example_answer =
           (\<lparr>status = 200,
             body = [(''success'', JBool True), (''is_correct'', JBool True),
                     (''confusion_level'', JNum 7),
                     (''feedback'', JStr ?t)]\<rparr>, [analyze_request example_answer])"
    by (simp only: json_body_fallback to_json.simps)
  with a have "stated_is_correct ?t" and "cl = JNum 7"
    by simp_all
  with cl show ?thesis
    by simp
qed

text \<open>
  The claim as it was stated makes the confusion level the integer captured; the free
  text \<open>confusion: 9007199254740993\<close> captures \<open>2^53 + 1\<close>, which no double holds, and the
  response carries \<open>2^53\<close>.
\<close>

lemma example_confusion_rounded:
  "fallback_analysis ''confusion: 9007199254740993'' =
     Inr (JObj [(''is_correct'', JBool False), (''confusion_level'', JNum 9007199254740992),
                (''feedback'', JStr ''confusion: 9007199254740993'')])"
  by code_simp

lemma example_confusion_found:
  "find_first True re_confusion ''confusion: 9007199254740993'' =
     Some (0, 27, [(1, ''9007199254740993'')])"
  by code_simp

lemma example_decimal: "decimal ''9007199254740993'' = 9007199254740993"
  by code_simp

theorem confusion_level_rounded_counterexample:
  "stated_confusion_level ''confusion: 9007199254740993'' 9007199254740993 \<and>
   field (analyzeStudentResponse
            (env_replying (\<lambda>_. Inr (reply_with ''confusion: 9007199254740993'')))
            example_answer) ''confusion_level'' = Some (JNum 9007199254740992)"
proof -
  let ?t = "''confusion: 9007199254740993''"
  let ?env = "env_replying (\<lambda>_. Inr (reply_with ?t))"
  have r: "createChatCompletion ?env (analyze_request example_answer) = Inr (reply_with ?t)"
    by (simp add: env_replying_def)
  have c: "choices (reply_with ?t) = [\<lparr>function_call = None, content = Some ?t\<rparr>]"
    by (simp add: reply_with_def)
  have "first_at (confusion_match_at ?t) 0 ''9007199254740993''"
    using find_confusion[of ?t] unfolding example_confusion_found by simp
  then have 1: "stated_confusion_level ?t 9007199254740993"
    unfolding stated_confusion_level_def using example_decimal by metis
  have "analysisResult ?env (reply_with ?t) = fallback_analysis ?t"
    by (rule analysisResult_free_text[OF c]) simp_all
  then have "analysisResult ?env (reply_with ?t) =
     Inr (JObj [(''is_correct'', JBool False), (''confusion_level'', JNum 9007199254740992),
                (''feedback'', JStr ?t)])"
    by (simp only: example_confusion_rounded)
  from analyze_ok[OF example_answer_truthy r c this]
  have "field (analyzeStudentResponse ?env example_answer) ''confusion_level'' =
      Some (JNum 9007199254740992)"
    by (simp only: json_body_fallback field_def fst_conv http_response.simps) simp
  with 1 show ?thesis
    by simp
qed

lemma field_structured:
  assumes "truthy (studentResponse b)" and "truthy (analyze_body.context' b)"
    and "createChatCompletion env (analyze_request b) = Inr reply"
    and "choices reply = m # ms" and "function_call m = Some fc"
    and "JSON_parse env (arguments fc) = Inr payload"
  shows "status (fst (analyzeStudentResponse env b)) = 200"
    and "field (analyzeStudentResponse env b) k =
           map_option to_json (map_of (spread [(''success'', JBool True)] payload) k)"
proof -
  have "analysisResult env reply = Inr payload"
    using analysisResult_structured[OF assms(4,5)] assms(6) by simp
  from analyze_ok[OF assms(1-4) this]
  show "status (fst (analyzeStudentResponse env b)) = 200"
    and "field (analyzeStudentResponse env b) k =
           map_option to_json (map_of (spread [(''success'', JBool True)] payload) k)"
    by (simp_all add: field_def map_of_json_body)
qed

text \<open>
  C4, as amended. The confusion level is not clamped to the range from 0 to 10. For a
  reply of free text it is 5 when the text has no match of the pattern for
  \<open>confusion:\<close>, and otherwise the number that \<open>parseInt\<close> makes of the digits captured by
  the first match, as the JSON body writes it: the integer captured, whatever it is, up to
  \<open>2^53\<close>, the double nearest to it beyond, and \<open>null\<close> from \<open>2^1024 - 2^970\<close> on,
  where the rounding gives an infinity; it is never negative.
  For a reply with a function call it is the value that the payload holds, as the JSON
  body writes it.
\<close>

theorem confusion_level_not_clamped:
  assumes "truthy (studentResponse b)" and "truthy (analyze_body.context' b)"
    and "createChatCompletion env (analyze_request b) = Inr reply"
    and "choices reply = m # ms"
  shows "(function_call m = None \<and> content m = Some free_text \<longrightarrow>
           (\<exists>cl. field (analyzeStudentResponse env b) ''confusion_level'' = Some cl \<and>
                 (cl = JNull \<or> (\<exists>n. cl = JNum n \<and> 0 \<le> n)) \<and>
                 ((\<forall>i cap. \<not> confusion_match_at free_text i cap) \<longrightarrow> cl = JNum 5) \<and>
                 (\<forall>i cap. first_at (confusion_match_at free_text) i cap \<longrightarrow>
                    cl = to_json (number_of (decimal cap)) \<and>
                    (decimal cap \<le> 2 ^ 53 \<longrightarrow> cl = JNum (decimal cap)) \<and>
                    (cl = JNull \<longleftrightarrow> 2 ^ 1024 - 2 ^ 970 \<le> decimal cap)))) \<and>
         (function_call m = Some fc \<and> JSON_parse env (arguments fc) = Inr (JObj kvs) \<and>
          distinct (map fst kvs) \<and> map_of kvs ''confusion_level'' = Some v \<longrightarrow>
            field (analyzeStudentResponse env b) ''confusion_level'' = Some (to_json v))"
proof (intro conjI impI)
  assume a: "function_call m = None \<and> content m = Some free_text"
  from free_text_response[OF assms, of free_text] a obtain c where
    r: "analyzeStudentResponse env b =
           (\<lparr>status = 200,
             body = [(''success'', JBool True),
                     (''is_correct'', JBool (stated_is_correct free_text)),
                     (''confusion_level'', to_json c),
                     (''feedback'', JStr free_text)]\<rparr>, [analyze_request b])" and
    none: "(\<forall>i cap. \<not> confusion_match_at free_text i cap) \<longrightarrow> c = JNum 5" and
    some: "\<forall>i cap. first_at (confusion_match_at free_text) i cap \<longrightarrow> c = number_of (decimal cap)"
    by auto
  have f: "field (analyzeStudentResponse env b) ''confusion_level'' = Some (to_json c)"
    by (simp add: r field_def)
  have n5: "(\<forall>i cap. \<not> confusion_match_at free_text i cap) \<longrightarrow> to_json c = JNum 5"
    using none by auto
  have m: "to_json c = to_json (number_of (decimal cap)) \<and>
           (decimal cap \<le> 2 ^ 53 \<longrightarrow> to_json c = JNum (decimal cap)) \<and>
           (to_json c = JNull \<longleftrightarrow> 2 ^ 1024 - 2 ^ 970 \<le> decimal cap)"
    if "first_at (confusion_match_at free_text) i cap" for i cap
    using some that first_match_digits[OF that]
    by (simp add: to_json_number_of_exact to_json_number_of_null_iff)
  have rng: "to_json c = JNull \<or> (\<exists>n. to_json c = JNum n \<and> 0 \<le> n)"
    using find_confusion[of free_text]
  proof (elim disjE conjE exE)
    assume "\<forall>i cap. \<not> confusion_match_at free_text i cap"
    with n5 show ?thesis
      by simp
  next
    fix i n cap
    assume first: "first_at (confusion_match_at free_text) i cap"
    from m[OF first] to_json_number_of_cases[OF first_match_digits[OF first]] show ?thesis
      by simp
  qed
  from f rng n5 m
  show "\<exists>cl. field (analyzeStudentResponse env b) ''confusion_level'' = Some cl \<and>
                 (cl = JNull \<or> (\<exists>n. cl = JNum n \<and> 0 \<le> n)) \<and>
                 ((\<forall>i cap. \<not> confusion_match_at free_text i cap) \<longrightarrow> cl = JNum 5) \<and>
                 (\<forall>i cap. first_at (confusion_match_at free_text) i cap \<longrightarrow>
                    cl = to_json (number_of (decimal cap)) \<and>
                    (decimal cap \<le> 2 ^ 53 \<longrightarrow> cl = JNum (decimal cap)) \<and>
                    (cl = JNull \<longleftrightarrow> 2 ^ 1024 - 2 ^ 970 \<le> decimal cap))"
    by blast
next
  assume a: "function_call m = Some fc \<and> JSON_parse env (arguments fc) = Inr (JObj kvs) \<and>
          distinct (map fst kvs) \<and> map_of kvs ''confusion_level'' = Some v"
  then have "field (analyzeStudentResponse env b) ''confusion_level'' =
      map_option to_json (map_of (spread [(''success'', JBool True)] (JObj kvs)) ''confusion_level'')"
    using field_structured(2)[OF assms] by blast
  also have "\<dots> = Some (to_json v)"
    using a by (simp add: map_of_spread_present)
  finally show "field (analyzeStudentResponse env b) ''confusion_level'' = Some (to_json v)" .
qed

lemma example_confusion_99:
  "fallback_analysis ''confusion: 99'' =
     Inr (JObj [(''is_correct'', JBool False), (''confusion_level'', JNum 99),
                (''feedback'', JStr ''confusion: 99'')])"
  by code_simp

lemma example_no_markers: "find_first True re_confusion ''no markers'' = None"
  by code_simp

lemma example_huge:
  "2 ^ 1024 - 2 ^ 970 \<le> decimal (replicate 310 CHR ''1'')"
  by code_simp

theorem confusion_level_not_clamped_witness:
  "field (analyzeStudentResponse (env_replying (\<lambda>_. Inr (reply_with ''no markers'')))
            example_answer) ''confusion_level'' = Some (JNum 5) \<and>
   field (analyzeStudentResponse
            (env_replying (\<lambda>_. Inr (reply_with (''confusion: '' @ replicate 310 CHR ''1''))))
            example_answer) ''confusion_level'' = Some JNull"
proof -
  let ?env = "env_replying (\<lambda>_. Inr (reply_with ''no markers''))"
  have r: "createChatCompletion ?env (analyze_request example_answer) =
      Inr (reply_with ''no markers'')"
    by (simp add: env_replying_def)
  have c: "choices (reply_with ''no markers'') =
      [\<lparr>function_call = None, content = Some ''no markers''\<rparr>]"
    by (simp add: reply_with_def)
  have none: "\<forall>i cap. \<not> confusion_match_at ''no markers'' i cap"
    using find_confusion[of "''no markers''"] example_no_markers by simp
  from confusion_level_not_clamped[OF example_answer_truthy r c, of "''no markers''"]
  obtain cl where
    "field (analyzeStudentResponse ?env example_answer) ''confusion_level'' = Some cl"
    and "(\<forall>i cap. \<not> confusion_match_at ''no markers'' i cap) \<longrightarrow> cl = JNum 5"
    by auto
  with none have 1: "field (analyzeStudentResponse ?env example_answer) ''confusion_level'' =
      Some (JNum 5)"
    by simp
  let ?cap = "replicate 310 CHR ''1''"
  let ?t = "''confusion: '' @ ?cap"
  let ?env' = "env_replying (\<lambda>_. Inr (reply_with ?t))"
  have r': "createChatCompletion ?env' (analyze_request example_answer) = Inr (reply_with ?t)"
    by (simp add: env_replying_def)
  have c': "choices (reply_with ?t) = [\<lparr>function_call = None, content = Some ?t\<rparr>]"
    by (simp add: reply_with_def)
  have "confusion_match_at ?t 0 ?cap"
    unfolding confusion_match_at_def
    by (intro conjI exI[of _ "''confusion:''"] exI[of _ "'' ''"] exI[of _ "[]"])
      (simp_all add: ci_equal_def is_space_def is_digit_def)
  then have first: "first_at (confusion_match_at ?t) 0 ?cap"
    by (simp add: first_at_def)
  from confusion_level_not_clamped[OF example_answer_truthy r' c', of ?t]
  obtain cl' where
    f: "field (analyzeStudentResponse ?env' example_answer) ''confusion_level'' = Some cl'"
    and "\<forall>i cap. first_at (confusion_match_at ?t) i cap \<longrightarrow>
           (cl' = JNull \<longleftrightarrow> 2 ^ 1024 - 2 ^ 970 \<le> decimal cap)"
    by auto
  with first example_huge have "cl' = JNull"
    by blast
  with f 1 show ?thesis
    by simp
qed

text \<open>
  The claim as it was stated bounds the confusion level by 10; the free text
  \<open>confusion: 99\<close> gives 99.
\<close>

theorem confusion_level_99_counterexample:
  "field (analyzeStudentResponse (env_replying (\<lambda>_. Inr (reply_with ''confusion: 99'')))
            example_answer) ''confusion_level'' = Some (JNum 99)"
proof -
  let ?env = "env_replying (\<lambda>_. Inr (reply_with ''confusion: 99''))"
  have r: "createChatCompletion ?env (analyze_request example_answer) =
      Inr (reply_with ''confusion: 99'')"
    by (simp add: env_replying_def)
  have c: "choices (reply_with ''confusion: 99'') =
      [\<lparr>function_call = None, content = Some ''confusion: 99''\<rparr>]"
    by (simp add: reply_with_def)
  have "analysisResult ?env (reply_with ''confusion: 99'') = fallback_analysis ''confusion: 99''"
    by (rule analysisResult_free_text[OF c]) simp_all
  then have "analysisResult ?env (reply_with ''confusion: 99'') =
     Inr (JObj [(''is_correct'', JBool False), (''confusion_level'', JNum 99),
                (''feedback'', JStr ''confusion: 99'')])"
    by (simp only: example_confusion_99)
  from analyze_ok[OF example_answer_truthy r c this] show ?thesis
    by (simp only: json_body_fallback field_def fst_conv http_response.simps) simp
qed

text \<open>
  C5, as amended. When the provider supplies no \<open>misconceptions\<close>, the response has no
  field \<open>misconceptions\<close> at all: neither branch adds an empty sequence.
\<close>

theorem misconceptions_omitted:
  assumes "truthy (studentResponse b)" and "truthy (analyze_body.context' b)"
    and "createChatCompletion env (analyze_request b) = Inr reply"
    and "choices reply = m # ms"
  shows "(function_call m = None \<and> content m = Some free_text \<longrightarrow>
           status (fst (analyzeStudentResponse env b)) = 200 \<and>
           field (analyzeStudentResponse env b) ''misconceptions'' = None) \<and>
         (function_call m = Some fc \<and> JSON_parse env (arguments fc) = Inr payload \<and>
          ''misconceptions'' \<notin> fst ` set (own_props payload) \<longrightarrow>
            status (fst (analyzeStudentResponse env b)) = 200 \<and>
            field (analyzeStudentResponse env b) ''misconceptions'' = None)"
proof (intro conjI impI)
  assume a: "function_call m = None \<and> content m = Some free_text"
  from free_text_response[OF assms, of free_text] a
  show "status (fst (analyzeStudentResponse env b)) = 200"
    and "field (analyzeStudentResponse env b) ''misconceptions'' = None"
    by (auto simp: field_def)
next
  assume a: "function_call m = Some fc \<and> JSON_parse env (arguments fc) = Inr payload \<and>
          ''misconceptions'' \<notin> fst ` set (own_props payload)"
  then show "status (fst (analyzeStudentResponse env b)) = 200"
    using field_structured(1)[OF assms] by blast
  from a have "field (analyzeStudentResponse env b) ''misconceptions'' =
      map_option to_json
        (map_of (spread [(''success'', JBool True)] payload) ''misconceptions'')"
    using field_structured(2)[OF assms] by blast
  also have "\<dots> = None"
    using a by (simp add: map_of_spread_absent)
  finally show "field (analyzeStudentResponse env b) ''misconceptions'' = None" .
qed

theorem misconceptions_omitted_witness:
  "status (fst (analyzeStudentResponse (env_replying (\<lambda>_. Inr (reply_with ''correct: true'')))
                  example_answer)) = 200 \<and>
   field (analyzeStudentResponse (env_replying (\<lambda>_. Inr (reply_with ''correct: true'')))
            example_answer) ''misconceptions'' = None"
proof -
  let ?env = "env_replying (\<lambda>_. Inr (reply_with ''correct: true''))"
  have r: "createChatCompletion ?env (analyze_request example_answer) =
      Inr (reply_with ''correct: true'')"
    by (simp add: env_replying_def)
  have c: "choices (reply_with ''correct: true'') =
      [\<lparr>function_call = None, content = Some ''correct: true''\<rparr>]"
    by (simp add: reply_with_def)
  from misconceptions_omitted[OF example_answer_truthy r c, of "''correct: true''"]
  show ?thesis
    by simp
qed

text \<open>
  The claim as it was stated expects an empty sequence; for the payload of the
  specification's own example the response holds the three fields of the payload and
  \<open>success\<close>, and nothing else.
\<close>

theorem misconceptions_absent_counterexample:
  "body (fst (analyzeStudentResponse example_payload_env example_answer)) =
     [(''success'', JBool True), (''is_correct'', JBool True), (''confusion_level'', JNum 3),
      (''feedback'', JStr ''ok'')] \<and>
   field (analyzeStudentResponse example_payload_env example_answer) ''misconceptions'' = None"
proof -
  let ?args = "''{\"is_correct\":true,\"confusion_level\":3,\"feedback\":\"ok\"}''"
  let ?m = "\<lparr>function_call = Some \<lparr>name = ''analyze_student_response'', arguments = ?args\<rparr>,
            content = None\<rparr>"
  let ?payload = "JObj [(''is_correct'', JBool True), (''confusion_level'', JNum 3),
                        (''feedback'', JStr ''ok'')]"
  have r: "createChatCompletion example_payload_env (analyze_request example_answer) =
      Inr \<lparr>choices = [?m]\<rparr>"
    by (simp add: example_payload_env_def)
  have c: "choices \<lparr>choices = [?m]\<rparr> = [?m]"
    by simp
  have "analysisResult example_payload_env \<lparr>choices = [?m]\<rparr> =
      JSON_parse example_payload_env ?args"
    using analysisResult_structured[OF c, of "\<lparr>name = ''analyze_student_response'', arguments = ?args\<rparr>"
        example_payload_env]
    by simp
  then have "analysisResult example_payload_env \<lparr>choices = [?m]\<rparr> = Inr ?payload"
    by (simp add: example_payload_env_def)
  from analyze_ok[OF example_answer_truthy r c this] show ?thesis
    by (simp only: json_body_fallback field_def fst_conv http_response.simps) simp
qed

end
